theory Spec2Isabelle
  imports Main "HOL-Library.Sublist" "HOL-Library.Char_ord"
begin

section \<open>Data model\<close>

text \<open>
  The configuration is whatever \<^verbatim>\<open>json.load\<close> returns for the configuration file: a
  Python dict from placeholder ids to per-placeholder entries. An entry is meant to be a dict
  from tag names (or \<^verbatim>\<open>"default"\<close>) to strings, but nothing validates that, so an entry
  is an arbitrary JSON value. A Python dict keeps its insertion order and has no duplicate
  keys; it is an association list read with \<open>map_of\<close>. Strings are sequences of bytes
  (UTF-8); the bytes of \<^verbatim>\<open><\<close>, \<^verbatim>\<open>>\<close> and of the identifier characters never occur
  inside a multi-byte character, so scanning bytes and scanning code points agree.
\<close>

datatype json =
    JNull
  | JBool bool
  | JInt int
  | JFloat int int  \<comment> \<open>mantissa and exponent; the resolver never looks inside\<close>
  | JStr string
  | JArr "json list"
  | JObj "(string \<times> json) list"

type_synonym config = "(string \<times> json) list"

datatype py_error = TypeError | KeyError | OSError

section \<open>Tag resolver\<close>

text \<open>
  \<^verbatim>\<open>f"<{placeholder_id}>"\<close>: the placeholder marker.
\<close>

definition marker :: "string \<Rightarrow> string" where
  "marker placeholder_id = ''<'' @ placeholder_id @ ''>''"

text \<open>
  \<^verbatim>\<open>needle in haystack\<close> on two Python strings: the substring test.
\<close>

fun str_contains :: "string \<Rightarrow> string \<Rightarrow> bool" where
  "str_contains needle [] = (needle = [])"
| "str_contains needle (c # cs) = (prefix needle (c # cs) \<or> str_contains needle cs)"

text \<open>
  \<^verbatim>\<open>key in placeholder_config\<close>, by the type of the entry: key membership on a dict,
  substring test on a string, element membership on a list (a string equals only a string),
  and a \<^verbatim>\<open>TypeError\<close> on a number or a boolean, which are not iterable. The entry
  \<^verbatim>\<open>None\<close> never gets here (the caller returns before), it raises as well.
\<close>

fun py_in :: "string \<Rightarrow> json \<Rightarrow> py_error + bool" where
  "py_in key (JObj kvs) = Inr (map_of kvs key \<noteq> None)"
| "py_in key (JStr s) = Inr (str_contains key s)"
| "py_in key (JArr xs) = Inr (JStr key \<in> set xs)"
| "py_in key JNull = Inl TypeError"
| "py_in key (JBool b) = Inl TypeError"
| "py_in key (JInt i) = Inl TypeError"
| "py_in key (JFloat m e) = Inl TypeError"

text \<open>
  \<^verbatim>\<open>placeholder_config[key]\<close> with a string key, reached only after
  \<^verbatim>\<open>key in placeholder_config\<close> was true: the stored value on a dict (a
  \<^verbatim>\<open>KeyError\<close> if the key were missing), a \<^verbatim>\<open>TypeError\<close> on a string or a list
  (their indices must be integers) and on the other values.
\<close>

fun py_getitem :: "json \<Rightarrow> string \<Rightarrow> py_error + json" where
  "py_getitem (JObj kvs) key = (case map_of kvs key of Some v \<Rightarrow> Inr v | None \<Rightarrow> Inl KeyError)"
| "py_getitem other key = Inl TypeError"

text \<open>
  \<^verbatim>\<open>if not isinstance(value, str): return str(value)\<close> / \<^verbatim>\<open>return value\<close>. Python's
  built-in \<^verbatim>\<open>str\<close> on the values that are not strings is the parameter \<open>py_str\<close>.
\<close>

fun coerce :: "(json \<Rightarrow> string) \<Rightarrow> json \<Rightarrow> string" where
  "coerce py_str (JStr s) = s"
| "coerce py_str v = py_str v"

text \<open>
  The loop \<^verbatim>\<open>for tag in tags\<close> of \<^verbatim>\<open>_get_value_for_placeholder\<close>: \<open>Inr (Some v)\<close> is
  a \<^verbatim>\<open>return\<close> inside the loop, \<open>Inr None\<close> is the loop running to its end.
\<close>

fun scan_tags :: "(json \<Rightarrow> string) \<Rightarrow> json \<Rightarrow> string list \<Rightarrow> py_error + string option" where
  "scan_tags py_str placeholder_config [] = Inr None"
| "scan_tags py_str placeholder_config (tag # tags) =
     (case py_in tag placeholder_config of
        Inl e \<Rightarrow> Inl e
      | Inr True \<Rightarrow>
          (case py_getitem placeholder_config tag of
             Inl e \<Rightarrow> Inl e
           | Inr v \<Rightarrow> Inr (Some (coerce py_str v)))
      | Inr False \<Rightarrow> scan_tags py_str placeholder_config tags)"

text \<open>
  \<^verbatim>\<open>ResumeSubstituter._get_value_for_placeholder\<close>. The warnings it logs are not part of
  the result.
\<close>

definition get_value_for_placeholder ::
  "(json \<Rightarrow> string) \<Rightarrow> config \<Rightarrow> string \<Rightarrow> string list \<Rightarrow> py_error + string" where
  "get_value_for_placeholder py_str config placeholder_id tags =
     (case map_of config placeholder_id of
        None \<Rightarrow> Inr (marker placeholder_id)
      | Some placeholder_config \<Rightarrow>
          if placeholder_config = JNull then Inr (marker placeholder_id)
          else
            (case scan_tags py_str placeholder_config tags of
               Inl e \<Rightarrow> Inl e
             | Inr (Some v) \<Rightarrow> Inr v
             | Inr None \<Rightarrow>
                 (case py_in ''default'' placeholder_config of
                    Inl e \<Rightarrow> Inl e
                  | Inr True \<Rightarrow>
                      (case py_getitem placeholder_config ''default'' of
                         Inl e \<Rightarrow> Inl e
                       | Inr v \<Rightarrow> Inr (coerce py_str v))
                  | Inr False \<Rightarrow> Inr (marker placeholder_id))))"

section \<open>Template substitution engine\<close>

text \<open>
  The character class \<^verbatim>\<open>[a-zA-Z0-9_]\<close> of the placeholder pattern.
\<close>

definition is_idchar :: "char \<Rightarrow> bool" where
  "is_idchar c \<longleftrightarrow>
     (CHR ''a'' \<le> c \<and> c \<le> CHR ''z'') \<or> (CHR ''A'' \<le> c \<and> c \<le> CHR ''Z'') \<or>
     (CHR ''0'' \<le> c \<and> c \<le> CHR ''9'') \<or> c = CHR ''_''"

text \<open>
  The pattern \<^verbatim>\<open><([a-zA-Z0-9_][a-zA-Z0-9_]*)>\<close> tried at the start of \<open>s\<close>; the result is
  the captured identifier. The greedy class takes the longest run of identifier characters,
  and backtracking to a shorter run cannot help, because the character after a shorter run
  is an identifier character and not \<^verbatim>\<open>>\<close>.
\<close>

definition match_placeholder :: "string \<Rightarrow> string option" where
  "match_placeholder s =
     (case s of
        [] \<Rightarrow> None
      | c # cs \<Rightarrow>
          if c = CHR ''<'' then
            (let ident = takeWhile is_idchar cs; rest = dropWhile is_idchar cs
             in if ident \<noteq> [] \<and> rest \<noteq> [] \<and> hd rest = CHR ''>'' then Some ident else None)
          else None)"

text \<open>
  \<^verbatim>\<open>re.findall(r"<([a-zA-Z0-9_][a-zA-Z0-9_]*)>", content)\<close>: the captured identifiers of the
  non-overlapping matches, found from left to right; after a match the scan goes on behind
  it, otherwise one character further.
\<close>

function find_placeholders :: "string \<Rightarrow> string list" where
  "find_placeholders [] = []"
| "find_placeholders (c # cs) =
     (case match_placeholder (c # cs) of
        Some ident \<Rightarrow> ident # find_placeholders (drop (length ident + 1) cs)
      | None \<Rightarrow> find_placeholders cs)"
  by pat_completeness auto
termination
  by (relation "measure length") auto

text \<open>
  \<^verbatim>\<open>len(re.findall(re.escape(pattern), content))\<close>: the number of non-overlapping
  occurrences of the literal \<open>old\<close>, found from left to right. (The empty pattern matches
  once at every position and at the end.)
\<close>

function str_count :: "string \<Rightarrow> string \<Rightarrow> nat" where
  "str_count old [] = (if old = [] then 1 else 0)"
| "str_count old (c # cs) =
     (if old = [] then Suc (Suc (length cs))
      else if prefix old (c # cs) then Suc (str_count old (drop (length old) (c # cs)))
      else str_count old cs)"
  by pat_completeness auto
termination
  by (relation "measure (\<lambda>(old, s). length s)") (auto simp: neq_Nil_conv)

text \<open>
  \<^verbatim>\<open>content.replace(old, new)\<close>: every non-overlapping occurrence of \<open>old\<close>, found from
  left to right, is replaced by \<open>new\<close>, in one pass over \<open>content\<close>. (The empty \<open>old\<close>
  puts \<open>new\<close> before every character and at the end.)
\<close>

function str_replace :: "string \<Rightarrow> string \<Rightarrow> string \<Rightarrow> string" where
  "str_replace old new [] = (if old = [] then new else [])"
| "str_replace old new (c # cs) =
     (if old = [] then new @ c # concat (map (\<lambda>d. new @ [d]) cs) @ new
      else if prefix old (c # cs) then new @ str_replace old new (drop (length old) (c # cs))
      else c # str_replace old new cs)"
  by pat_completeness auto
termination
  by (relation "measure (\<lambda>(old, new, s). length s)") (auto simp: neq_Nil_conv)

text \<open>
  The loop \<^verbatim>\<open>for placeholder_id in set(placeholders)\<close> of \<^verbatim>\<open>substitute_file\<close>, over the
  identifiers in the order in which the set yields them. The state is the running
  \<^verbatim>\<open>content\<close>, the running \<^verbatim>\<open>substitution_count\<close> and the lines
  \<^verbatim>\<open><id> -> 'value' (n occurrences)\<close> logged so far (one for each identifier with at least
  one occurrence). An exception of the resolver leaves the loop.
\<close>

type_synonym report = "(string \<times> string \<times> nat) list"

fun substitute_loop ::
  "(json \<Rightarrow> string) \<Rightarrow> config \<Rightarrow> string list \<Rightarrow> string list \<Rightarrow> string \<times> nat \<times> report \<Rightarrow>
   py_error + string \<times> nat \<times> report" where
  "substitute_loop py_str config tags [] st = Inr st"
| "substitute_loop py_str config tags (placeholder_id # ids) (content, substitution_count, logged) =
     (case get_value_for_placeholder py_str config placeholder_id tags of
        Inl e \<Rightarrow> Inl e
      | Inr v \<Rightarrow>
          (let pattern = marker placeholder_id;
               occurrences = str_count pattern content
           in substitute_loop py_str config tags ids
                (str_replace pattern v content,
                 substitution_count + occurrences,
                 logged @ (if occurrences > 0 then [(placeholder_id, v, occurrences)] else []))))"

text \<open>
  \<^verbatim>\<open>ResumeSubstituter.substitute_file\<close> between reading the input file and writing the
  output file: from the text read to the text written, the number of substitutions and the
  logged replacements. Python does not fix the order in which \<^verbatim>\<open>set(placeholders)\<close> is
  iterated (string hashes change from run to run); \<open>set_order\<close> is that order, a list of the
  distinct identifiers found. When there is no placeholder the text is written as it is and
  nothing is substituted; the code logs no count on that path, and the 0 of the model is the
  number of replacements made. A file that cannot be read or written ends the process
  (\<^verbatim>\<open>sys.exit(1)\<close>) before or after this function.
\<close>

definition substitute_file ::
  "(json \<Rightarrow> string) \<Rightarrow> config \<Rightarrow> (string list \<Rightarrow> string list) \<Rightarrow> string \<Rightarrow> string list \<Rightarrow>
   py_error + string \<times> nat \<times> report" where
  "substitute_file py_str config set_order content tags =
     (let placeholders = find_placeholders content
      in if placeholders = [] then Inr (content, 0, [])
         else substitute_loop py_str config tags (set_order placeholders) (content, 0, []))"

text \<open>
  What Python guarantees of the iteration of \<^verbatim>\<open>set(placeholders)\<close>: every identifier found,
  once.
\<close>

definition iterates_set :: "(string list \<Rightarrow> string list) \<Rightarrow> bool" where
  "iterates_set set_order \<longleftrightarrow>
     (\<forall>ps. distinct (set_order ps) \<and> set (set_order ps) = set ps)"

text \<open>
  The substitution as the specification words it, for comparison with the loop above: one
  pass over the template from left to right, in which every placeholder span is replaced by
  the value \<open>f\<close> gives for its identifier, the inserted value is never looked at again, and
  every other character is copied.
\<close>

function one_pass_substitute :: "(string \<Rightarrow> string) \<Rightarrow> string \<Rightarrow> string" where
  "one_pass_substitute f [] = []"
| "one_pass_substitute f (c # cs) =
     (case match_placeholder (c # cs) of
        Some ident \<Rightarrow> f ident @ one_pass_substitute f (drop (length ident + 1) cs)
      | None \<Rightarrow> c # one_pass_substitute f cs)"
  by pat_completeness auto
termination
  by (relation "measure (\<lambda>(f, s). length s)") auto

text \<open>
  A well-formed identifier, and a \<^verbatim>\<open><...>\<close> span that is not a placeholder: no angle
  bracket inside, and the inside is not a well-formed identifier.
\<close>

definition is_ident :: "string \<Rightarrow> bool" where
  "is_ident ident \<longleftrightarrow> ident \<noteq> [] \<and> list_all is_idchar ident"


text \<open>
  A template in which every \<^verbatim>\<open><\<close> opens a placeholder: at each position that holds a
  \<^verbatim>\<open><\<close>, the placeholder pattern matches.
\<close>

fun every_lt_opens :: "string \<Rightarrow> bool" where
  "every_lt_opens [] = True"
| "every_lt_opens (c # cs) =
     ((c \<noteq> CHR ''<'' \<or> match_placeholder (c # cs) \<noteq> None) \<and> every_lt_opens cs)"

text \<open>
  Two iteration orders of a set of identifiers: by first appearance from the right, and the
  reverse. For two identifiers these are all the orders there are.
\<close>

definition reversed_order :: "string list \<Rightarrow> string list" where
  "reversed_order ps = rev (remdups ps)"

text \<open>
  The examples below use configurations whose values are all strings, so that \<^verbatim>\<open>str\<close> is
  never called; there the parameter \<open>py_str\<close> is the function \<open>no_str\<close>.
\<close>

definition no_str :: "json \<Rightarrow> string" where
  "no_str v = []"

section \<open>Country classifier\<close>

text \<open>
  \<^verbatim>\<open>country.lower()\<close>. On a string of ASCII characters it maps \<^verbatim>\<open>A\<close>..\<^verbatim>\<open>Z\<close> to
  \<^verbatim>\<open>a\<close>..\<^verbatim>\<open>z\<close> and keeps the rest. On other strings the result comes from the Unicode
  case tables of the interpreter, the parameter \<open>unicode_lower\<close>.
\<close>

definition is_ascii :: "char \<Rightarrow> bool" where
  "is_ascii c \<longleftrightarrow> c \<le> CHR 0x7F"

definition ascii_lower :: "char \<Rightarrow> char" where
  "ascii_lower c =
     (if CHR ''A'' \<le> c \<and> c \<le> CHR ''Z'' then char_of (of_char c + (32::nat)) else c)"

definition ascii_upper :: "char \<Rightarrow> char" where
  "ascii_upper c =
     (if CHR ''a'' \<le> c \<and> c \<le> CHR ''z'' then char_of (of_char c - (32::nat)) else c)"

definition str_lower :: "(string \<Rightarrow> string) \<Rightarrow> string \<Rightarrow> string" where
  "str_lower unicode_lower s =
     (if list_all is_ascii s then map ascii_lower s else unicode_lower s)"

definition direct_mappings :: "(string \<times> string) list" where
  "direct_mappings =
     [(''uk'', ''uk''),
      (''united kingdom'', ''uk''),
      (''britain'', ''uk''),
      (''great britain'', ''uk''),
      (''england'', ''uk''),
      (''scotland'', ''uk''),
      (''wales'', ''uk''),
      (''northern ireland'', ''uk''),
      (''usa'', ''usa''),
      (''united states'', ''usa''),
      (''us'', ''usa''),
      (''america'', ''usa''),
      (''switzerland'', ''switzerland''),
      (''spain'', ''spain'')]"

definition european_countries :: "string list" where
  "european_countries =
     [''germany'', ''france'', ''italy'', ''netherlands'', ''belgium'', ''austria'', ''denmark'',
      ''sweden'', ''norway'', ''finland'', ''portugal'', ''greece'', ''poland'',
      ''czech republic'', ''hungary'', ''slovenia'', ''slovakia'', ''estonia'', ''latvia'',
      ''lithuania'', ''luxembourg'', ''malta'', ''cyprus'', ''ireland'', ''romania'',
      ''bulgaria'', ''croatia'']"

text \<open>
  \<^verbatim>\<open>ResumeSubstituter.map_country_to_tag\<close>.
\<close>

definition map_country_to_tag :: "(string \<Rightarrow> string) \<Rightarrow> string \<Rightarrow> string" where
  "map_country_to_tag unicode_lower country =
     (let country_lower = str_lower unicode_lower country
      in case map_of direct_mappings country_lower of
           Some tag \<Rightarrow> tag
         | None \<Rightarrow> if country_lower \<in> set european_countries then ''europe'' else ''default'')"

text \<open>
  A stand-in for the Unicode tables in the examples, all of which are ASCII.
\<close>

definition no_unicode :: "string \<Rightarrow> string" where
  "no_unicode s = s"

section \<open>Output path builder\<close>

definition country_tags :: "string set" where
  "country_tags = {''uk'', ''usa'', ''switzerland'', ''europe'', ''spain''}"

definition position_tags :: "string set" where
  "position_tags =
     {''engineer'', ''researcher'', ''data_scientist'', ''developer'', ''software_engineer'',
      ''software_developer''}"

text \<open>
  The loop \<^verbatim>\<open>for tag in tags\<close> of \<^verbatim>\<open>create_folder_structure\<close>; the state is
  \<^verbatim>\<open>country\<close>, \<^verbatim>\<open>position\<close> (both \<^verbatim>\<open>None\<close> at first) and \<^verbatim>\<open>other_tags\<close>.
\<close>

fun partition_tags ::
  "string list \<Rightarrow> string option \<times> string option \<times> string list \<Rightarrow>
   string option \<times> string option \<times> string list" where
  "partition_tags [] st = st"
| "partition_tags (tag # tags) (country, position, other_tags) =
     (if tag \<in> country_tags then partition_tags tags (Some tag, position, other_tags)
      else if tag \<in> position_tags then partition_tags tags (country, Some tag, other_tags)
      else partition_tags tags (country, position, other_tags @ [tag]))"

text \<open>
  The partition as the specification words it: the first tag of the country set, the first
  tag of the position set, and every remaining tag, in the original order.
\<close>

fun remove_first :: "string option \<Rightarrow> string list \<Rightarrow> string list" where
  "remove_first None tags = tags"
| "remove_first (Some t) tags = remove1 t tags"

definition spec_partition :: "string list \<Rightarrow> string option \<times> string option \<times> string list" where
  "spec_partition tags =
     (let country = find (\<lambda>t. t \<in> country_tags) tags;
          position = find (\<lambda>t. t \<in> position_tags) tags
      in (country, position, remove_first position (remove_first country tags)))"

text \<open>
  The last element of a list, if any.
\<close>

definition last_of :: "'a list \<Rightarrow> 'a option" where
  "last_of xs = (if xs = [] then None else Some (last xs))"

text \<open>
  \<^verbatim>\<open>sep.join(parts)\<close>.
\<close>

fun str_join :: "string \<Rightarrow> string list \<Rightarrow> string" where
  "str_join sep [] = []"
| "str_join sep [x] = x"
| "str_join sep (x # y # ys) = x @ sep @ str_join sep (y # ys)"

text \<open>
  \<^verbatim>\<open>s.split("/")\<close>: the pieces between the slashes, empty pieces included.
\<close>

fun split_sep :: "string \<Rightarrow> string list" where
  "split_sep [] = [Nil]"
| "split_sep (c # cs) =
     (if c = CHR ''/'' then [] # split_sep cs
      else (case split_sep cs of [] \<Rightarrow> [c # Nil] | p # ps \<Rightarrow> (c # p) # ps))"

text \<open>
  \<^verbatim>\<open>pathlib\<close> on a POSIX system. \<^verbatim>\<open>posixpath.join\<close> of two segments; the root of a
  path (\<^verbatim>\<open>/\<close>, or \<^verbatim>\<open>//\<close> for exactly two leading slashes) and what follows it; the
  components, without the empty ones and without \<^verbatim>\<open>.\<close>; and the path as a string.
\<close>

definition posix_join :: "string \<Rightarrow> string \<Rightarrow> string" where
  "posix_join a b =
     (if prefix ''/'' b then b
      else if a = [] \<or> last a = CHR ''/'' then a @ b
      else a @ ''/'' @ b)"

definition splitroot :: "string \<Rightarrow> string \<times> string" where
  "splitroot p =
     (if \<not> prefix ''/'' p then ([], p)
      else if \<not> prefix ''//'' p \<or> prefix ''///'' p then (''/'', drop 1 p)
      else (''//'', drop 2 p))"

definition parse_path :: "string \<Rightarrow> string \<times> string list" where
  "parse_path p =
     (let (root, rel) = splitroot p
      in (root, filter (\<lambda>x. x \<noteq> [] \<and> x \<noteq> ''.'') (split_sep rel)))"

text \<open>
  \<^verbatim>\<open>str(Path(seg1) / seg2 / ...)\<close>: the segments are joined, the result is parsed and
  written with single slashes; the empty relative path is \<^verbatim>\<open>.\<close>.
\<close>

definition path_str :: "string list \<Rightarrow> string" where
  "path_str segments =
     (let (root, tail) = parse_path (foldl posix_join [] segments);
          s = root @ str_join ''/'' tail
      in if s = [] then ''.'' else s)"

text \<open>
  \<^verbatim>\<open>Path(p).name\<close>, \<^verbatim>\<open>name.rfind(".")\<close>, \<^verbatim>\<open>Path(p).suffix\<close> and \<^verbatim>\<open>Path(p).stem\<close>.
\<close>

definition path_name :: "string \<Rightarrow> string" where
  "path_name p = (let tail = snd (parse_path p) in if tail = [] then [] else last tail)"

definition rfind :: "char \<Rightarrow> string \<Rightarrow> int" where
  "rfind c s =
     (if c \<in> set s then int (length s) - 1 - int (length (takeWhile (\<lambda>x. x \<noteq> c) (rev s)))
      else - 1)"

definition path_suffix :: "string \<Rightarrow> string" where
  "path_suffix p =
     (let name = path_name p; i = rfind CHR ''.'' name
      in if 0 < i \<and> i < int (length name) - 1 then drop (nat i) name else [])"

definition path_stem :: "string \<Rightarrow> string" where
  "path_stem p =
     (let name = path_name p; i = rfind CHR ''.'' name
      in if 0 < i \<and> i < int (length name) - 1 then take (nat i) name else name)"

text \<open>
  \<^verbatim>\<open>ResumeSubstituter.create_folder_structure\<close>. The directories are made on the file
  system by \<^verbatim>\<open>folder_path.mkdir(parents=True, exist_ok=True)\<close>, which raises an
  \<^verbatim>\<open>OSError\<close> when the system refuses (a component that is a file, a directory that may
  not be written); \<open>mkdir\<close> tells whether it succeeds for a path.
\<close>

definition create_folder_structure ::
  "(string \<Rightarrow> bool) \<Rightarrow> string list \<Rightarrow> string \<Rightarrow> string \<Rightarrow> py_error + string" where
  "create_folder_structure mkdir tags base_output_file country_original =
     (case partition_tags tags (None, None, []) of (country0, position0, other_tags) \<Rightarrow>
        (let country = (case country0 of None \<Rightarrow> ''default''
                        | Some c \<Rightarrow> if c = [] then ''default'' else c);
             position = (case position0 of None \<Rightarrow> ''general''
                         | Some p \<Rightarrow> if p = [] then ''general'' else p);
             base_name = path_stem base_output_file;
             extension = path_suffix base_output_file;
             folder_name = (if other_tags \<noteq> [] then ''_base_'' @ str_join ''_'' other_tags
                            else ''_base'');
             folder_country = (if country_original \<noteq> [] then country_original else country);
             folder_path = [folder_country, folder_name, ''Position'']
         in if mkdir (path_str folder_path)
            then Inr (path_str (folder_path @ [base_name @ extension]))
            else Inl OSError))"

text \<open>
  A path segment that \<^verbatim>\<open>pathlib\<close> keeps as one component: not empty, not \<^verbatim>\<open>.\<close>, and
  without a slash.
\<close>

definition plain_segment :: "string \<Rightarrow> bool" where
  "plain_segment seg \<longleftrightarrow> seg \<noteq> [] \<and> seg \<noteq> ''.'' \<and> CHR ''/'' \<notin> set seg"

text \<open>
  A file system that accepts every directory, for the examples.
\<close>

definition mkdir_ok :: "string \<Rightarrow> bool" where
  "mkdir_ok p = True"

section \<open>Properties of the tag resolver\<close>

lemma scan_tags_no_match:
  "\<forall>t\<in>set tags. map_of entry t = None \<Longrightarrow> scan_tags py_str (JObj entry) tags = Inr None"
  by (induction tags) simp_all

lemma scan_tags_first_match:
  "\<forall>t\<in>set before. map_of entry t = None \<Longrightarrow> map_of entry tag = Some v \<Longrightarrow>
   scan_tags py_str (JObj entry) (before @ tag # after) = Inr (Some (coerce py_str v))"
  by (induction before) simp_all

text \<open>
  C1. The claim: the resolver never raises, also when the entry of the placeholder is not a
  mapping, and then returns the marker. The code guards the entry \<^verbatim>\<open>None\<close> only. A number
  is not iterable, so the test \<^verbatim>\<open>"default" in placeholder_config\<close> raises a
  \<^verbatim>\<open>TypeError\<close>; on a string the test is a substring test, and when it succeeds the
  subscript \<^verbatim>\<open>placeholder_config[tag]\<close> raises a \<^verbatim>\<open>TypeError\<close>.
\<close>

theorem resolver_raises_on_scalar_entry:
  "get_value_for_placeholder py_str [(''2'', JInt 42)] ''2'' [] = Inl TypeError \<and>
   get_value_for_placeholder py_str [(''2'', JStr ''Invalid Structure'')] ''2'' [''Invalid'']
     = Inl TypeError \<and>
   get_value_for_placeholder py_str [(''2'', JStr ''the default text'')] ''2'' [] = Inl TypeError \<and>
   get_value_for_placeholder py_str [(''2'', JNull)] ''2'' [] = Inr ''<2>'' \<and>
   get_value_for_placeholder py_str [(''2'', JStr ''Invalid Structure'')] ''2'' [] = Inr ''<2>''"
  by (simp add: get_value_for_placeholder_def marker_def)

text \<open>
  C3. When the entry of the placeholder is a mapping and some tag of the list is one of its
  keys, the resolver returns the value stored under the first such tag of the list (as it is
  when a string, through \<^verbatim>\<open>str\<close> otherwise), whatever the later tags and the key
  \<^verbatim>\<open>"default"\<close> hold: no tag before it is a key, and what follows it is not looked at.
\<close>

theorem resolver_first_matching_tag:
  assumes "map_of config placeholder_id = Some (JObj entry)"
    and "\<forall>t\<in>set before. map_of entry t = None"
    and "map_of entry tag = Some v"
  shows "get_value_for_placeholder py_str config placeholder_id (before @ tag # after)
         = Inr (coerce py_str v)"
  using assms by (simp add: get_value_for_placeholder_def scan_tags_first_match)

theorem resolver_first_matching_tag_witness:
  "get_value_for_placeholder no_str
     [(''1'', JObj [(''default'', JStr ''John Doe''), (''academic'', JStr ''Dr. John Doe''),
                    (''industry'', JStr ''J. Doe'')])]
     ''1'' [''unknown'', ''industry'', ''academic''] = Inr ''J. Doe''"
  using resolver_first_matching_tag
    [of "[(''1'', JObj [(''default'', JStr ''John Doe''), (''academic'', JStr ''Dr. John Doe''),
                        (''industry'', JStr ''J. Doe'')])]"
        "''1''"
        "[(''default'', JStr ''John Doe''), (''academic'', JStr ''Dr. John Doe''),
          (''industry'', JStr ''J. Doe'')]"
        "[''unknown'']" "''industry''" "JStr ''J. Doe''" no_str "[''academic'']"]
  by simp

text \<open>
  C4. When the entry of the placeholder is a mapping and no tag of the list (which may be
  empty) is one of its keys, the resolver returns the value stored under \<^verbatim>\<open>"default"\<close> if
  that key exists (as it is when a string, through \<^verbatim>\<open>str\<close> otherwise), and the marker
  \<^verbatim>\<open><id>\<close> if not.
\<close>

theorem resolver_default_or_marker:
  assumes "map_of config placeholder_id = Some (JObj entry)"
    and "\<forall>t\<in>set tags. map_of entry t = None"
  shows "get_value_for_placeholder py_str config placeholder_id tags =
         Inr (case map_of entry ''default'' of
                Some v \<Rightarrow> coerce py_str v
              | None \<Rightarrow> ''<'' @ placeholder_id @ ''>'')"
  using assms
  by (simp add: get_value_for_placeholder_def scan_tags_no_match marker_def split: option.splits)

theorem resolver_default_or_marker_witness:
  "get_value_for_placeholder no_str
     [(''1'', JObj [(''academic'', JStr ''Dr. John'')]),
      (''2'', JObj [(''default'', JStr ''Engineer''), (''academic'', JStr ''Professor'')])]
     ''2'' [''nonexistent''] = Inr ''Engineer'' \<and>
   get_value_for_placeholder no_str
     [(''1'', JObj [(''academic'', JStr ''Dr. John'')]),
      (''2'', JObj [(''default'', JStr ''Engineer''), (''academic'', JStr ''Professor'')])]
     ''1'' [] = Inr ''<1>''"
  using resolver_default_or_marker
    [of "[(''1'', JObj [(''academic'', JStr ''Dr. John'')]),
          (''2'', JObj [(''default'', JStr ''Engineer''), (''academic'', JStr ''Professor'')])]"
        "''2''" "[(''default'', JStr ''Engineer''), (''academic'', JStr ''Professor'')]"
        "[''nonexistent'']" no_str]
    resolver_default_or_marker
    [of "[(''1'', JObj [(''academic'', JStr ''Dr. John'')]),
          (''2'', JObj [(''default'', JStr ''Engineer''), (''academic'', JStr ''Professor'')])]"
        "''1''" "[(''academic'', JStr ''Dr. John'')]" "[]" no_str]
  by simp

section \<open>The placeholder scanner and the literal replacement\<close>

lemma not_idchar_lt [simp]: "\<not> is_idchar CHR ''<''" by (simp add: is_idchar_def)
lemma not_idchar_gt [simp]: "\<not> is_idchar CHR ''>''" by (simp add: is_idchar_def)

lemma is_ident_no_lt: "is_ident i \<Longrightarrow> CHR ''<'' \<notin> set i"
  by (auto simp: is_ident_def list_all_iff)
lemma is_ident_no_gt: "is_ident i \<Longrightarrow> CHR ''>'' \<notin> set i"
  by (auto simp: is_ident_def list_all_iff)

lemma match_placeholder_Some:
  assumes "match_placeholder s = Some ident"
  shows "\<exists>rest. is_ident ident \<and> s = marker ident @ rest"
proof -
  from assms obtain cs where s: "s = CHR ''<'' # cs"
    by (cases s) (auto simp: match_placeholder_def split: if_splits)
  from assms s have i: "ident = takeWhile is_idchar cs" and ne: "ident \<noteq> []"
    and r: "dropWhile is_idchar cs \<noteq> []" "hd (dropWhile is_idchar cs) = CHR ''>''"
    by (auto simp: match_placeholder_def Let_def split: if_splits)
  have "cs = ident @ dropWhile is_idchar cs" by (simp add: i)
  moreover from r obtain rest where "dropWhile is_idchar cs = CHR ''>'' # rest"
    by (cases "dropWhile is_idchar cs") auto
  ultimately have cs: "cs = ident @ CHR ''>'' # rest" by simp
  have "is_ident ident" using ne i by (simp add: is_ident_def list_all_iff) (meson set_takeWhileD)
  moreover have "s = marker ident @ rest"
    using s cs by (simp add: marker_def)
  ultimately show ?thesis by blast
qed

lemma drop_marker [simp]: "drop (length ident + 1) (ident @ CHR ''>'' # rest) = rest"
  by simp

lemma match_placeholder_marker:
  "is_ident ident \<Longrightarrow> match_placeholder (marker ident @ rest) = Some ident"
  by (auto simp: match_placeholder_def marker_def is_ident_def list_all_iff
       takeWhile_append2 dropWhile_append2 takeWhile_tail dropWhile_append3 Let_def)

lemma gt_terminated_prefix:
  assumes "CHR ''>'' \<notin> set i" "CHR ''>'' \<notin> set j" "prefix (i @ ''>'') (j @ CHR ''>'' # X)"
  shows "i = j"
  using assms
proof (induction i arbitrary: j)
  case Nil
  then show ?case by (cases j) auto
next
  case (Cons a i)
  then show ?case by (cases j) auto
qed

lemma marker_prefix_iff:
  "CHR ''>'' \<notin> set i \<Longrightarrow> CHR ''>'' \<notin> set j \<Longrightarrow> prefix (marker i) (marker j @ X) \<longleftrightarrow> i = j"
  by (auto simp: marker_def dest: gt_terminated_prefix)

lemma marker_not_Nil [simp]: "marker i \<noteq> []" by (simp add: marker_def)

lemma str_replace_Nil: "str_replace (marker i) v [] = []" by simp

lemma str_replace_prefix:
  "prefix (marker i) s \<Longrightarrow>
   str_replace (marker i) v s = v @ str_replace (marker i) v (drop (length (marker i)) s)"
  by (cases s) simp_all

lemma str_replace_no_prefix:
  "\<not> prefix (marker i) (c # s) \<Longrightarrow> str_replace (marker i) v (c # s) = c # str_replace (marker i) v s"
  by simp

lemma str_count_Nil: "str_count (marker i) [] = 0" by simp

lemma str_count_prefix:
  "prefix (marker i) s \<Longrightarrow>
   str_count (marker i) s = Suc (str_count (marker i) (drop (length (marker i)) s))"
  by (cases s) simp_all

lemma str_count_no_prefix:
  "\<not> prefix (marker i) (c # s) \<Longrightarrow> str_count (marker i) (c # s) = str_count (marker i) s"
  by simp

declare str_replace.simps [simp del] str_count.simps [simp del]

lemma str_replace_skip:
  "c \<noteq> CHR ''<'' \<Longrightarrow> str_replace (marker i) v (c # s) = c # str_replace (marker i) v s"
  by (rule str_replace_no_prefix) (simp add: marker_def)

lemma str_replace_skips:
  "CHR ''<'' \<notin> set w \<Longrightarrow> str_replace (marker i) v (w @ s) = w @ str_replace (marker i) v s"
  by (induction w) (auto simp: str_replace_skip)

lemma str_replace_hit:
  "str_replace (marker i) v (marker i @ s) = v @ str_replace (marker i) v s"
  by (simp add: str_replace_prefix)

lemma str_count_skip:
  "c \<noteq> CHR ''<'' \<Longrightarrow> str_count (marker i) (c # s) = str_count (marker i) s"
  by (rule str_count_no_prefix) (simp add: marker_def)

lemma str_count_skips:
  "CHR ''<'' \<notin> set w \<Longrightarrow> str_count (marker i) (w @ s) = str_count (marker i) s"
  by (induction w) (auto simp: str_count_skip)

lemma str_count_hit:
  "str_count (marker i) (marker i @ s) = Suc (str_count (marker i) s)"
  by (simp add: str_count_prefix)

lemma find_placeholders_ident: "i \<in> set (find_placeholders s) \<Longrightarrow> is_ident i"
proof (induction s rule: find_placeholders.induct)
  case 1
  then show ?case by simp
next
  case (2 c cs)
  then show ?case
    by (auto split: option.splits dest: match_placeholder_Some)
qed

lemma find_placeholders_span:
  "find_placeholders s \<noteq> [] \<Longrightarrow> \<exists>before i after. is_ident i \<and> s = before @ marker i @ after"
proof (induction s rule: find_placeholders.induct)
  case 1
  then show ?case by simp
next
  case (2 c cs)
  show ?case
  proof (cases "match_placeholder (c # cs)")
    case None
    with 2 obtain before i after where "is_ident i" "cs = before @ marker i @ after" by auto
    then have "is_ident i \<and> c # cs = (c # before) @ marker i @ after" by simp
    then show ?thesis by blast
  next
    case (Some ident)
    then obtain rest where "is_ident ident \<and> c # cs = [] @ marker ident @ rest"
      using match_placeholder_Some by fastforce
    then show ?thesis by blast
  qed
qed

lemma span_find_placeholders:
  "is_ident i \<Longrightarrow> find_placeholders (before @ marker i @ after) \<noteq> []"
proof (induction before)
  case Nil
  then have "match_placeholder (marker i @ after) = Some i" by (rule match_placeholder_marker)
  then show ?case by (simp add: marker_def)
next
  case (Cons c before)
  then show ?case by (simp split: option.splits)
qed

lemma find_placeholders_empty_iff:
  "find_placeholders s = [] \<longleftrightarrow> \<not> (\<exists>before i after. is_ident i \<and> s = before @ marker i @ after)"
  using find_placeholders_span span_find_placeholders by blast







lemma match_placeholder_SomeD:
  assumes "match_placeholder (c # cs) = Some ident"
  shows "is_ident ident" "c # cs = marker ident @ drop (length ident + 1) cs"
proof -
  from match_placeholder_Some[OF assms] obtain rest where
    i: "is_ident ident" and s: "c # cs = marker ident @ rest" by blast
  show "is_ident ident" by fact
  from s have "cs = ident @ CHR ''>'' # rest" by (simp add: marker_def)
  then have "drop (length ident + 1) cs = rest" by simp
  with s show "c # cs = marker ident @ drop (length ident + 1) cs" by simp
qed

lemma str_replace_other_marker:
  assumes "is_ident i" "is_ident j" "i \<noteq> j"
  shows "str_replace (marker i) v (marker j @ X) = marker j @ str_replace (marker i) v X"
proof -
  have np: "\<not> prefix (marker i) (CHR ''<'' # (j @ ''>'') @ X)"
    using assms marker_prefix_iff[of i j X] by (simp add: is_ident_no_gt marker_def)
  have "CHR ''<'' \<notin> set (j @ ''>'')" using assms(2) by (simp add: is_ident_no_lt)
  then have "str_replace (marker i) v ((j @ ''>'') @ X) = (j @ ''>'') @ str_replace (marker i) v X"
    by (rule str_replace_skips)
  then show ?thesis using str_replace_no_prefix[OF np] by (simp add: marker_def)
qed

lemma str_count_other_marker:
  assumes "is_ident i" "is_ident j" "i \<noteq> j"
  shows "str_count (marker i) (marker j @ X) = str_count (marker i) X"
proof -
  have np: "\<not> prefix (marker i) (CHR ''<'' # (j @ ''>'') @ X)"
    using assms marker_prefix_iff[of i j X] by (simp add: is_ident_no_gt marker_def)
  have "CHR ''<'' \<notin> set (j @ ''>'')" using assms(2) by (simp add: is_ident_no_lt)
  then have "str_count (marker i) ((j @ ''>'') @ X) = str_count (marker i) X"
    by (rule str_count_skips)
  then show ?thesis using str_count_no_prefix[OF np] by (simp add: marker_def)
qed

lemma one_pass_marker: "one_pass_substitute marker t = t"
proof (induction marker t rule: one_pass_substitute.induct)
  case 1
  then show ?case by simp
next
  case (2 c cs)
  show ?case
  proof (cases "match_placeholder (c # cs)")
    case None
    with 2 show ?thesis by simp
  next
    case (Some ident)
    with 2 have "one_pass_substitute marker (drop (length ident + 1) cs) = drop (length ident + 1) cs"
      by simp
    with Some match_placeholder_SomeD(2)[OF Some, symmetric] show ?thesis by simp
  qed
qed

lemma one_pass_cong:
  "(\<And>j. j \<in> set (find_placeholders t) \<Longrightarrow> g j = h j) \<Longrightarrow>
   one_pass_substitute g t = one_pass_substitute h t"
proof (induction g t rule: one_pass_substitute.induct)
  case (1 f)
  then show ?case by simp
next
  case (2 f c cs)
  show ?case
  proof (cases "match_placeholder (c # cs)")
    case None
    with 2 show ?thesis by simp
  next
    case (Some ident)
    with 2 show ?thesis by simp
  qed
qed

lemma every_lt_opens_append: "every_lt_opens (w @ r) \<Longrightarrow> every_lt_opens r"
  by (induction w) simp_all

lemma every_lt_opens_drop: "every_lt_opens s \<Longrightarrow> every_lt_opens (drop k s)"
  by (metis append_take_drop_id every_lt_opens_append)

lemma replace_one_pass:
  assumes "is_ident i" "g i = marker i"
    and "\<And>j. is_ident j \<Longrightarrow> g j = marker j \<or> CHR ''<'' \<notin> set (g j)"
    and "every_lt_opens t"
  shows "str_replace (marker i) v (one_pass_substitute g t) = one_pass_substitute (\<lambda>j. if j = i then v else g j) t
       \<and> str_count (marker i) (one_pass_substitute g t) = count_list (find_placeholders t) i"
  using assms(4)
proof (induction t rule: find_placeholders.induct)
  case 1
  then show ?case by (simp add: str_replace_Nil str_count_Nil)
next
  case (2 c cs)
  show ?case
  proof (cases "match_placeholder (c # cs)")
    case None
    with 2 have "c \<noteq> CHR ''<''" and "every_lt_opens cs" by simp_all
    with 2 None show ?thesis by (simp add: str_replace_skip str_count_skip)
  next
    case (Some ident)
    have id: "is_ident ident" using match_placeholder_SomeD(1)[OF Some] .
    from 2(3) have "every_lt_opens (drop (length ident + 1) cs)"
      using every_lt_opens_drop[of "c # cs" "length ident + 2"] by simp
    with 2 Some have IH:
      "str_replace (marker i) v (one_pass_substitute g (drop (length ident + 1) cs))
         = one_pass_substitute (\<lambda>j. if j = i then v else g j) (drop (length ident + 1) cs)"
      "str_count (marker i) (one_pass_substitute g (drop (length ident + 1) cs))
         = count_list (find_placeholders (drop (length ident + 1) cs)) i"
      by simp_all
    show ?thesis
    proof (cases "ident = i")
      case True
      with Some IH assms(2) show ?thesis by (simp add: str_replace_hit str_count_hit)
    next
      case False
      then have ne: "i \<noteq> ident" by simp
      from assms(3)[OF id] show ?thesis
      proof
        assume "g ident = marker ident"
        with Some IH False show ?thesis
          by (simp add: str_replace_other_marker[OF assms(1) id ne]
                str_count_other_marker[OF assms(1) id ne])
      next
        assume "CHR ''<'' \<notin> set (g ident)"
        with Some IH False show ?thesis
          by (simp add: str_replace_skips str_count_skips)
      qed
    qed
  qed
qed

lemma str_count_template:
  assumes "is_ident i"
  shows "str_count (marker i) t = count_list (find_placeholders t) i"
proof (induction t rule: find_placeholders.induct)
  case 1
  then show ?case by (simp add: str_count_Nil)
next
  case (2 c cs)
  show ?case
  proof (cases "match_placeholder (c # cs)")
    case None
    have "\<not> prefix (marker i) (c # cs)"
    proof
      assume "prefix (marker i) (c # cs)"
      then obtain r where "c # cs = marker i @ r" by (auto simp: prefix_def)
      with assms None match_placeholder_marker[of i r] show False by simp
    qed
    with 2 None show ?thesis by (simp add: str_count_no_prefix)
  next
    case (Some ident)
    have id: "is_ident ident" using match_placeholder_SomeD(1)[OF Some] .
    have eq: "c # cs = marker ident @ drop (length ident + 1) cs"
      using match_placeholder_SomeD(2)[OF Some] .
    from 2 Some have IH: "str_count (marker i) (drop (length ident + 1) cs)
        = count_list (find_placeholders (drop (length ident + 1) cs)) i" by simp
    show ?thesis
    proof (cases "ident = i")
      case True
      then show ?thesis using IH Some by (subst eq) (simp add: str_count_hit)
    next
      case False
      then have ne: "i \<noteq> ident" by simp
      show ?thesis using IH Some False
        by (subst eq) (simp add: str_count_other_marker[OF assms id ne])
    qed
  qed
qed

lemma replace_first_pass:
  assumes "is_ident i"
  shows "str_replace (marker i) v t = one_pass_substitute (\<lambda>j. if j = i then v else marker j) t"
proof (induction t rule: find_placeholders.induct)
  case 1
  then show ?case by (simp add: str_replace_Nil)
next
  case (2 c cs)
  show ?case
  proof (cases "match_placeholder (c # cs)")
    case None
    have "\<not> prefix (marker i) (c # cs)"
    proof
      assume "prefix (marker i) (c # cs)"
      then obtain r where "c # cs = marker i @ r" by (auto simp: prefix_def)
      with assms None match_placeholder_marker[of i r] show False by simp
    qed
    with 2 None show ?thesis by (simp add: str_replace_no_prefix)
  next
    case (Some ident)
    have id: "is_ident ident" using match_placeholder_SomeD(1)[OF Some] .
    have eq: "c # cs = marker ident @ drop (length ident + 1) cs"
      using match_placeholder_SomeD(2)[OF Some] .
    from 2 Some have IH: "str_replace (marker i) v (drop (length ident + 1) cs)
        = one_pass_substitute (\<lambda>j. if j = i then v else marker j) (drop (length ident + 1) cs)"
      by simp
    show ?thesis
    proof (cases "ident = i")
      case True
      have "str_replace (marker i) v (c # cs) = v @ str_replace (marker i) v (drop (length ident + 1) cs)"
        using True by (subst eq) (simp add: str_replace_hit)
      with IH Some True show ?thesis by simp
    next
      case False
      then have ne: "i \<noteq> ident" by simp
      have "str_replace (marker i) v (c # cs)
            = marker ident @ str_replace (marker i) v (drop (length ident + 1) cs)"
        by (subst eq) (simp add: str_replace_other_marker[OF assms id ne])
      with IH Some False show ?thesis by simp
    qed
  qed
qed

lemma substitute_loop_one_pass:
  assumes "every_lt_opens t"
  shows "distinct ids \<Longrightarrow>
    (\<forall>j\<in>set ids. is_ident j \<and> get_value_for_placeholder py cfg j tags = Inr (f j) \<and>
        (f j = marker j \<or> CHR ''<'' \<notin> set (f j))) \<Longrightarrow>
    (\<forall>j\<in>set ids. g j = marker j) \<Longrightarrow>
    (\<forall>j. is_ident j \<longrightarrow> g j = marker j \<or> CHR ''<'' \<notin> set (g j)) \<Longrightarrow>
    substitute_loop py cfg tags ids (one_pass_substitute g t, n, l) =
      Inr (one_pass_substitute (\<lambda>j. if j \<in> set ids then f j else g j) t,
           n + sum_list (map (count_list (find_placeholders t)) ids),
           l @ concat (map (\<lambda>j. if count_list (find_placeholders t) j > 0
                                then [(j, f j, count_list (find_placeholders t) j)] else []) ids))"
proof (induction ids arbitrary: g n l)
  case Nil
  then show ?case by simp
next
  case (Cons i ids)
  let ?g' = "\<lambda>j. if j = i then f i else g j"
  from Cons.prems have i: "is_ident i" "get_value_for_placeholder py cfg i tags = Inr (f i)"
    "f i = marker i \<or> CHR ''<'' \<notin> set (f i)" "g i = marker i" "i \<notin> set ids" "distinct ids"
    by simp_all
  have g: "\<And>j. is_ident j \<Longrightarrow> g j = marker j \<or> CHR ''<'' \<notin> set (g j)"
    using Cons.prems(4) by blast
  have step: "str_replace (marker i) (f i) (one_pass_substitute g t) = one_pass_substitute ?g' t"
    "str_count (marker i) (one_pass_substitute g t) = count_list (find_placeholders t) i"
    using replace_one_pass[OF i(1) i(4) g assms, of "f i"] by simp_all
  have p1: "\<forall>j\<in>set ids. is_ident j \<and> get_value_for_placeholder py cfg j tags = Inr (f j) \<and>
        (f j = marker j \<or> CHR ''<'' \<notin> set (f j))" using Cons.prems(2) by simp
  have p2: "\<forall>j\<in>set ids. ?g' j = marker j" using Cons.prems(3) i(5) by auto
  have p3: "\<forall>j. is_ident j \<longrightarrow> ?g' j = marker j \<or> CHR ''<'' \<notin> set (?g' j)"
    using g i(3) by auto
  have fn: "(\<lambda>j. if j \<in> set ids then f j else ?g' j) = (\<lambda>j. if j \<in> set (i # ids) then f j else g j)"
    by auto
  show ?case
    using Cons.IH[OF i(6) p1 p2 p3] i(2) step
    by (simp add: Let_def fn del: set_simps)
qed

lemma concat_map_if_all:
  "\<forall>j\<in>set ids. P j \<Longrightarrow> concat (map (\<lambda>j. if P j then [h j] else []) ids) = map h ids"
  by (induction ids) simp_all

lemma sum_count_distinct:
  assumes "distinct ids" "set ids = set ps"
  shows "sum_list (map (count_list ps) ids) = length ps"
proof -
  have "sum_list (map (count_list ps) ids) = sum (count_list ps) (set ids)"
    using assms(1) by (rule sum_list_distinct_conv_sum_set)
  also have "\<dots> = length ps" using assms(2) by (simp add: sum_count_set)
  finally show ?thesis .
qed

lemma iterates_setD:
  "iterates_set set_order \<Longrightarrow> distinct (set_order ps) \<and> set (set_order ps) = set ps"
  by (simp add: iterates_set_def)

lemma substitute_file_one_pass:
  assumes "iterates_set set_order" "every_lt_opens t"
    and "\<forall>j\<in>set (find_placeholders t). get_value_for_placeholder py cfg j tags = Inr (f j) \<and>
           (f j = marker j \<or> CHR ''<'' \<notin> set (f j))"
  shows "substitute_file py cfg set_order t tags =
     Inr (one_pass_substitute f t, length (find_placeholders t),
          map (\<lambda>j. (j, f j, count_list (find_placeholders t) j)) (set_order (find_placeholders t)))"
proof -
  let ?ps = "find_placeholders t"
  let ?ids = "set_order ?ps"
  have d: "distinct ?ids" and s: "set ?ids = set ?ps" using iterates_setD[OF assms(1)] by simp_all
  have a: "\<forall>j\<in>set ?ids. is_ident j \<and> get_value_for_placeholder py cfg j tags = Inr (f j) \<and>
        (f j = marker j \<or> CHR ''<'' \<notin> set (f j))"
    using assms(3) s find_placeholders_ident by blast
  have loop: "substitute_loop py cfg tags ?ids (one_pass_substitute marker t, 0, []) =
      Inr (one_pass_substitute (\<lambda>j. if j \<in> set ?ids then f j else marker j) t,
           0 + sum_list (map (count_list ?ps) ?ids),
           [] @ concat (map (\<lambda>j. if count_list ?ps j > 0 then [(j, f j, count_list ?ps j)] else []) ?ids))"
    by (rule substitute_loop_one_pass[OF assms(2) d a]) simp_all
  have c: "one_pass_substitute (\<lambda>j. if j \<in> set ?ids then f j else marker j) t = one_pass_substitute f t"
    by (rule one_pass_cong) (simp add: s)
  have l: "concat (map (\<lambda>j. if count_list ?ps j > 0 then [(j, f j, count_list ?ps j)] else []) ?ids)
        = map (\<lambda>j. (j, f j, count_list ?ps j)) ?ids"
  proof -
    have "\<forall>j\<in>set ?ids. count_list ?ps j > 0" using s by (metis count_list_0_iff neq0_conv)
    then show ?thesis by (rule concat_map_if_all)
  qed
  have full: "substitute_loop py cfg tags ?ids (t, 0, []) =
      Inr (one_pass_substitute f t, length ?ps, map (\<lambda>j. (j, f j, count_list ?ps j)) ?ids)"
    using loop by (simp add: one_pass_marker c l sum_count_distinct[OF d s])
  show ?thesis
  proof (cases "?ps = []")
    case True
    then have "?ids = []" using s by simp
    with True full show ?thesis by (simp add: substitute_file_def)
  next
    case False
    with full show ?thesis by (simp add: substitute_file_def Let_def)
  qed
qed






lemma iterates_set_remdups: "iterates_set remdups"
  by (simp add: iterates_set_def)

lemma iterates_set_reversed_order: "iterates_set reversed_order"
  by (simp add: iterates_set_def reversed_order_def)

lemma distinct_set_singleton: "distinct xs \<Longrightarrow> set xs = {x} \<Longrightarrow> xs = [x]"
proof (cases xs)
  case Nil
  assume "set xs = {x}"
  with Nil show ?thesis by simp
next
  case (Cons y ys)
  assume d: "distinct xs" and s: "set xs = {x}"
  from s Cons have y: "y = x" and sub: "set ys \<subseteq> {x}" by auto
  from d Cons y have "x \<notin> set ys" by simp
  with sub have "ys = []" by (cases ys) auto
  with Cons y show ?thesis by simp
qed

lemma single_identifier_pass:
  assumes "iterates_set set_order"
    and a1: "set (find_placeholders template) = {ident}"
    and v: "get_value_for_placeholder py_str config ident tags = Inr v"
  shows "substitute_file py_str config set_order template tags =
          Inr (one_pass_substitute (\<lambda>j. v) template, length (find_placeholders template),
               [(ident, v, length (find_placeholders template))])"
proof -
  let ?ps = "find_placeholders template"
  have ne: "?ps \<noteq> []"
  proof
    assume "?ps = []"
    then have "set ?ps = {}" by (simp only: set_simps)
    with a1 show False by simp
  qed
  have "ident \<in> set ?ps" using a1 by simp
  then have id: "is_ident ident" by (rule find_placeholders_ident)
  have "distinct (set_order ?ps)" "set (set_order ?ps) = {ident}"
    using iterates_setD[OF assms(1), of ?ps] a1 by simp_all
  then have ids: "set_order ?ps = [ident]"
    by (rule distinct_set_singleton)
  have c: "str_count (marker ident) template = length ?ps"
  proof -
    have "sum_list (map (count_list ?ps) [ident]) = length ?ps"
      by (rule sum_count_distinct) (simp_all add: a1)
    then show ?thesis by (simp add: str_count_template[OF id])
  qed
  have r: "str_replace (marker ident) v template = one_pass_substitute (\<lambda>j. v) template"
    unfolding replace_first_pass[OF id] by (rule one_pass_cong) (simp add: a1)
  from ne have pos: "0 < length ?ps" by simp
  have "substitute_loop py_str config tags [ident] (template, 0, []) =
          Inr (one_pass_substitute (\<lambda>j. v) template, length ?ps, [(ident, v, length ?ps)])"
    using pos by (simp add: v c r Let_def)
  then show ?thesis
    using ne by (simp add: substitute_file_def Let_def ids)
qed

section \<open>Properties of the substitution engine\<close>

text \<open>
  C8. A text in which no span matches the placeholder grammar (no \<^verbatim>\<open><\<close>, identifier,
  \<^verbatim>\<open>>\<close> anywhere in it) is written unchanged, with a count of 0 and nothing resolved, for
  every tag list and configuration; the result is a normal one, not an error.
\<close>

theorem no_placeholder_text_unchanged:
  assumes "\<not> (\<exists>before ident after. is_ident ident \<and> content = before @ marker ident @ after)"
  shows "substitute_file py_str config set_order content tags = Inr (content, 0, [])"
  using assms by (simp add: substitute_file_def find_placeholders_empty_iff)

theorem no_placeholder_text_unchanged_witness:
  "substitute_file no_str [(''1'', JObj [(''default'', JStr ''John'')])] remdups
     ''Plain text, 1 < 2 > 0, <> and <a-b>.'' [''academic'']
   = Inr (''Plain text, 1 < 2 > 0, <> and <a-b>.'', 0, [])"
proof -
  have "find_placeholders ''Plain text, 1 < 2 > 0, <> and <a-b>.'' = []"
    by (simp add: match_placeholder_def is_idchar_def)
  then have "\<not> (\<exists>before ident after. is_ident ident \<and>
      ''Plain text, 1 < 2 > 0, <> and <a-b>.'' = before @ marker ident @ after)"
    using find_placeholders_empty_iff by blast
  then show ?thesis by (rule no_placeholder_text_unchanged)
qed


text \<open>
  C2, as the code has it. The loop runs one literal replacement per distinct identifier, each
  over the text the earlier ones left, so a value inserted for one identifier is scanned
  again for the identifiers that come later. Within one replacement the inserted value is not
  looked at again: when the template has one distinct identifier, the result is the one-pass
  substitution whatever the value holds, its own marker included. With several identifiers,
  the result is the one-pass substitution (text outside the placeholder spans unchanged, each
  span replaced by its value, the count equal to the number of spans of the template) when
  every \<^verbatim>\<open><\<close> of the template opens a placeholder and every resolved value is the
  placeholder's own marker or holds no \<^verbatim>\<open><\<close>.
\<close>

theorem substitution_one_pass:
  assumes "iterates_set set_order"
  shows
    "(set (find_placeholders template) = {ident} \<and>
      get_value_for_placeholder py_str config ident tags = Inr v \<longrightarrow>
        substitute_file py_str config set_order template tags =
          Inr (one_pass_substitute (\<lambda>j. v) template, length (find_placeholders template),
               [(ident, v, length (find_placeholders template))])) \<and>
     (every_lt_opens template \<and>
      (\<forall>j\<in>set (find_placeholders template).
          get_value_for_placeholder py_str config j tags = Inr (f j) \<and>
          (f j = marker j \<or> CHR ''<'' \<notin> set (f j))) \<longrightarrow>
        (\<exists>logged. substitute_file py_str config set_order template tags =
          Inr (one_pass_substitute f template, length (find_placeholders template), logged)))"
proof (intro conjI impI)
  assume a: "set (find_placeholders template) = {ident} \<and>
      get_value_for_placeholder py_str config ident tags = Inr v"
  show "substitute_file py_str config set_order template tags =
          Inr (one_pass_substitute (\<lambda>j. v) template, length (find_placeholders template),
               [(ident, v, length (find_placeholders template))])"
    by (rule single_identifier_pass[OF assms conjunct1[OF a] conjunct2[OF a]])
next
  assume b: "every_lt_opens template \<and>
      (\<forall>j\<in>set (find_placeholders template).
          get_value_for_placeholder py_str config j tags = Inr (f j) \<and>
          (f j = marker j \<or> CHR ''<'' \<notin> set (f j)))"
  from substitute_file_one_pass[OF assms conjunct1[OF b] conjunct2[OF b]]
  show "\<exists>logged. substitute_file py_str config set_order template tags =
          Inr (one_pass_substitute f template, length (find_placeholders template), logged)"
    by (rule exI)
qed

theorem substitution_one_pass_witness:
  "substitute_file no_str [(''1'', JObj [(''default'', JStr ''<1><2>'')])] remdups
     ''<1> and <1>'' [] = Inr (''<1><2> and <1><2>'', 2, [(''1'', ''<1><2>'', 2)]) \<and>
   (\<exists>logged. substitute_file no_str [(''1'', JObj [(''default'', JStr ''John'')])] remdups
     ''Hello <1>, <2>!'' [] = Inr (''Hello John, <2>!'', 2, logged))"
proof -
  note t = substitution_one_pass[OF iterates_set_remdups]
  have h1: "set (find_placeholders ''<1> and <1>'') = {''1''} \<and>
      get_value_for_placeholder no_str [(''1'', JObj [(''default'', JStr ''<1><2>'')])] ''1'' []
        = Inr ''<1><2>''"
    by (simp add: match_placeholder_def is_idchar_def get_value_for_placeholder_def)
  have h2: "every_lt_opens ''Hello <1>, <2>!'' \<and>
      (\<forall>j\<in>set (find_placeholders ''Hello <1>, <2>!'').
          get_value_for_placeholder no_str [(''1'', JObj [(''default'', JStr ''John'')])] j []
            = Inr ((\<lambda>j. if j = ''1'' then ''John'' else marker j) j) \<and>
          ((\<lambda>j. if j = ''1'' then ''John'' else marker j) j = marker j \<or>
           CHR ''<'' \<notin> set ((\<lambda>j. if j = ''1'' then ''John'' else marker j) j)))"
    by (simp add: match_placeholder_def is_idchar_def get_value_for_placeholder_def)
  have r1: "substitute_file no_str [(''1'', JObj [(''default'', JStr ''<1><2>'')])] remdups
     ''<1> and <1>'' [] = Inr (''<1><2> and <1><2>'', 2, [(''1'', ''<1><2>'', 2)])"
    using t[THEN conjunct1, rule_format, OF h1]
    by (simp add: match_placeholder_def is_idchar_def)
  have r2: "\<exists>logged. substitute_file no_str [(''1'', JObj [(''default'', JStr ''John'')])] remdups
     ''Hello <1>, <2>!'' [] = Inr (''Hello John, <2>!'', 2, logged)"
    using t[THEN conjunct2, rule_format, OF h2]
    by (simp add: match_placeholder_def is_idchar_def marker_def numeral_2_eq_2)
  from r1 r2 show ?thesis by blast
qed

text \<open>
  C2 as the claim states it fails: with \<^verbatim>\<open>1\<close> resolving to \<^verbatim>\<open><2>\<close> and \<^verbatim>\<open>2\<close> to
  \<^verbatim>\<open><1>\<close>, the template \<^verbatim>\<open><1><2>\<close> should become \<^verbatim>\<open><2><1>\<close> with a count of 2. In
  either order of the two identifiers the value inserted first is replaced again and
  counted: the count is 3.
\<close>

theorem injected_marker_is_rescanned:
  "get_value_for_placeholder no_str
     [(''1'', JObj [(''default'', JStr ''<2>'')]), (''2'', JObj [(''default'', JStr ''<1>'')])]
     ''1'' [] = Inr ''<2>'' \<and>
   get_value_for_placeholder no_str
     [(''1'', JObj [(''default'', JStr ''<2>'')]), (''2'', JObj [(''default'', JStr ''<1>'')])]
     ''2'' [] = Inr ''<1>'' \<and>
   find_placeholders ''<1><2>'' = [''1'', ''2''] \<and>
   substitute_file no_str
     [(''1'', JObj [(''default'', JStr ''<2>'')]), (''2'', JObj [(''default'', JStr ''<1>'')])]
     remdups ''<1><2>'' [] = Inr (''<1><1>'', 3, [(''1'', ''<2>'', 1), (''2'', ''<1>'', 2)]) \<and>
   substitute_file no_str
     [(''1'', JObj [(''default'', JStr ''<2>'')]), (''2'', JObj [(''default'', JStr ''<1>'')])]
     reversed_order ''<1><2>'' [] = Inr (''<2><2>'', 3, [(''2'', ''<1>'', 1), (''1'', ''<2>'', 2)])"
  by code_simp

text \<open>
  C5, as the code has it. Each distinct identifier is resolved once and replaced once, in the
  running text. When every \<^verbatim>\<open><\<close> of the template opens a placeholder and every resolved
  value is the placeholder's own marker or holds no \<^verbatim>\<open><\<close>, every occurrence of
  \<^verbatim>\<open><identifier>\<close> in the template is replaced by the one value resolved for the
  identifier, the count is the sum over the distinct identifiers of the occurrences of their
  markers in the template, and one replacement is logged per distinct identifier, with that
  number of occurrences. So \<^verbatim>\<open><1> and <1> again\<close> with \<^verbatim>\<open>1\<close> resolving to \<^verbatim>\<open>X\<close>
  gives \<^verbatim>\<open>X and X again\<close> and the count 2.
\<close>

theorem substitution_uniform_and_counted:
  assumes "iterates_set set_order" and "every_lt_opens template"
    and "\<forall>j\<in>set (find_placeholders template).
          get_value_for_placeholder py_str config j tags = Inr (f j) \<and>
          (f j = marker j \<or> CHR ''<'' \<notin> set (f j))"
  shows "substitute_file py_str config set_order template tags =
     Inr (one_pass_substitute f template,
          sum_list (map (\<lambda>j. str_count (marker j) template)
                        (set_order (find_placeholders template))),
          map (\<lambda>j. (j, f j, str_count (marker j) template))
              (set_order (find_placeholders template)))"
proof -
  let ?ps = "find_placeholders template"
  have d: "distinct (set_order ?ps)" and s: "set (set_order ?ps) = set ?ps"
    using iterates_setD[OF assms(1)] by simp_all
  have c: "\<And>j. j \<in> set (set_order ?ps) \<Longrightarrow> str_count (marker j) template = count_list ?ps j"
    using s find_placeholders_ident str_count_template by blast
  have "sum_list (map (\<lambda>j. str_count (marker j) template) (set_order ?ps))
      = sum_list (map (count_list ?ps) (set_order ?ps))"
    using c by (metis (no_types, lifting) map_eq_conv)
  also have "\<dots> = length ?ps" by (rule sum_count_distinct[OF d s])
  finally have n: "sum_list (map (\<lambda>j. str_count (marker j) template) (set_order ?ps)) = length ?ps" .
  have l: "map (\<lambda>j. (j, f j, str_count (marker j) template)) (set_order ?ps)
      = map (\<lambda>j. (j, f j, count_list ?ps j)) (set_order ?ps)"
    using c by simp
  show ?thesis using substitute_file_one_pass[OF assms] by (simp only: n l)
qed

theorem substitution_uniform_and_counted_witness:
  "substitute_file no_str [(''1'', JObj [(''default'', JStr ''X'')])] remdups
     ''<1> and <1> again'' [] = Inr (''X and X again'', 2, [(''1'', ''X'', 2)])"
proof -
  have w: "every_lt_opens ''<1> and <1> again''"
    by (simp add: match_placeholder_def is_idchar_def)
  have v: "\<forall>j\<in>set (find_placeholders ''<1> and <1> again'').
      get_value_for_placeholder no_str [(''1'', JObj [(''default'', JStr ''X'')])] j []
        = Inr ((\<lambda>j. ''X'') j) \<and>
      ((\<lambda>j. ''X'') j = marker j \<or> CHR ''<'' \<notin> set ((\<lambda>j. ''X'') j))"
    by (simp add: match_placeholder_def is_idchar_def get_value_for_placeholder_def)
  show ?thesis
    using substitution_uniform_and_counted[OF iterates_set_remdups w v]
    by (simp add: match_placeholder_def is_idchar_def marker_def str_count.simps)
qed

text \<open>
  C5 as the claim states it fails: with \<^verbatim>\<open>x\<close> resolving to \<^verbatim>\<open><y>\<close> and \<^verbatim>\<open>y\<close> to
  \<^verbatim>\<open><x>\<close>, the markers occur 2 + 1 = 3 times in \<^verbatim>\<open><x>, <y> and <x>\<close>, and replacing
  each occurrence by its value would give \<^verbatim>\<open><y>, <x> and <y>\<close>. The occurrences are
  counted in the running text: the count is 4 in one order of the identifiers and 5 in the
  other, and the text ends with one marker everywhere.
\<close>

theorem occurrences_counted_in_running_text:
  "get_value_for_placeholder no_str
     [(''x'', JObj [(''default'', JStr ''<y>'')]), (''y'', JObj [(''default'', JStr ''<x>'')])]
     ''x'' [] = Inr ''<y>'' \<and>
   get_value_for_placeholder no_str
     [(''x'', JObj [(''default'', JStr ''<y>'')]), (''y'', JObj [(''default'', JStr ''<x>'')])]
     ''y'' [] = Inr ''<x>'' \<and>
   str_count (marker ''x'') ''<x>, <y> and <x>'' = 2 \<and>
   str_count (marker ''y'') ''<x>, <y> and <x>'' = 1 \<and>
   substitute_file no_str
     [(''x'', JObj [(''default'', JStr ''<y>'')]), (''y'', JObj [(''default'', JStr ''<x>'')])]
     remdups ''<x>, <y> and <x>'' []
     = Inr (''<y>, <y> and <y>'', 4, [(''y'', ''<x>'', 1), (''x'', ''<y>'', 3)]) \<and>
   substitute_file no_str
     [(''x'', JObj [(''default'', JStr ''<y>'')]), (''y'', JObj [(''default'', JStr ''<x>'')])]
     reversed_order ''<x>, <y> and <x>'' []
     = Inr (''<x>, <x> and <x>'', 5, [(''x'', ''<y>'', 2), (''y'', ''<x>'', 3)])"
  by code_simp

section \<open>Properties of the country classifier\<close>

lemma map_of_direct_range:
  "map_of direct_mappings k = Some tag \<Longrightarrow> tag \<in> {''uk'', ''usa'', ''switzerland'', ''spain''}"
  by (auto simp: direct_mappings_def split: if_splits)

lemma map_country_to_tag_range:
  "map_country_to_tag ul country
     \<in> {''uk'', ''usa'', ''switzerland'', ''spain'', ''europe'', ''default''}"
  using map_of_direct_range[of "str_lower ul country"]
  by (auto simp: map_country_to_tag_def Let_def split: option.splits)

lemma of_char_bounds:
  "CHR ''a'' \<le> c \<longleftrightarrow> 97 \<le> (of_char c :: nat)" "c \<le> CHR ''z'' \<longleftrightarrow> (of_char c :: nat) \<le> 122"
  "CHR ''A'' \<le> c \<longleftrightarrow> 65 \<le> (of_char c :: nat)" "c \<le> CHR ''Z'' \<longleftrightarrow> (of_char c :: nat) \<le> 90"
  "c \<le> CHR 0x7F \<longleftrightarrow> (of_char c :: nat) \<le> 127"
  by (simp_all add: less_eq_char_def)

lemma ascii_lower_upper: "ascii_lower (ascii_upper c) = ascii_lower c"
proof (cases "CHR ''a'' \<le> c \<and> c \<le> CHR ''z''")
  case True
  then have b: "97 \<le> (of_char c :: nat)" "(of_char c :: nat) \<le> 122" by (simp_all add: of_char_bounds)
  then have m: "(of_char c - 32 :: nat) mod 256 = of_char c - 32" by simp
  have u: "ascii_upper c = char_of (of_char c - 32 :: nat)" using True by (simp add: ascii_upper_def)
  from b have r: "65 \<le> (of_char c - 32 :: nat)" "(of_char c - 32 :: nat) \<le> 90" by arith+
  have "CHR ''A'' \<le> ascii_upper c \<and> ascii_upper c \<le> CHR ''Z''"
    using r by (simp add: u of_char_bounds m)
  then have "ascii_lower (ascii_upper c) = char_of (of_char (ascii_upper c) + 32 :: nat)"
    by (simp add: ascii_lower_def)
  also have "\<dots> = char_of (of_char c - 32 + 32 :: nat)" by (simp add: u m)
  also have "\<dots> = char_of (of_char c :: nat)" using b by simp
  also have "\<dots> = c" by simp
  finally have "ascii_lower (ascii_upper c) = c" .
  moreover have "ascii_lower c = c" using b by (simp add: ascii_lower_def of_char_bounds)
  ultimately show ?thesis by simp
next
  case False
  then have "ascii_upper c = c" unfolding ascii_upper_def by (rule if_not_P)
  then show ?thesis by simp
qed

lemma is_ascii_upper: "is_ascii c \<Longrightarrow> is_ascii (ascii_upper c)"
proof (cases "CHR ''a'' \<le> c \<and> c \<le> CHR ''z''")
  case True
  then have b: "97 \<le> (of_char c :: nat)" "(of_char c :: nat) \<le> 122" by (simp_all add: of_char_bounds)
  then have m: "(of_char c - 32 :: nat) mod 256 = of_char c - 32" by simp
  from b have "(of_char c - 32 :: nat) \<le> 127" by arith
  then show ?thesis using True by (simp add: ascii_upper_def is_ascii_def of_char_bounds m)
next
  case False
  then have "ascii_upper c = c" unfolding ascii_upper_def by (rule if_not_P)
  moreover assume "is_ascii c"
  ultimately show ?thesis by simp
qed

lemma str_lower_upper:
  "list_all is_ascii s \<Longrightarrow> str_lower ul (map ascii_upper s) = str_lower ul s"
  by (simp add: str_lower_def list_all_iff is_ascii_upper ascii_lower_upper)

text \<open>
  C7. The classifier is a function of the country name alone that returns one of six tags
  for every string and has no failing branch. It ignores the case of ASCII letters:
  \<^verbatim>\<open>united kingdom\<close> and \<^verbatim>\<open>ENGLAND\<close> give \<^verbatim>\<open>uk\<close>, \<^verbatim>\<open>Germany\<close> gives
  \<^verbatim>\<open>europe\<close>, and a name that, lowered, is neither in the alias table nor in the European
  set (such as \<^verbatim>\<open>Mars\<close>) gives \<^verbatim>\<open>default\<close>.
\<close>

theorem country_classification:
  "map_country_to_tag unicode_lower country
     \<in> {''uk'', ''usa'', ''switzerland'', ''spain'', ''europe'', ''default''} \<and>
   map_country_to_tag unicode_lower ''united kingdom'' = ''uk'' \<and>
   map_country_to_tag unicode_lower ''ENGLAND'' = ''uk'' \<and>
   map_country_to_tag unicode_lower ''Germany'' = ''europe'' \<and>
   map_country_to_tag unicode_lower ''Mars'' = ''default'' \<and>
   (map_of direct_mappings (str_lower unicode_lower country) = None \<and>
    str_lower unicode_lower country \<notin> set european_countries \<longrightarrow>
      map_country_to_tag unicode_lower country = ''default'') \<and>
   (list_all is_ascii country \<longrightarrow>
      map_country_to_tag unicode_lower (map ascii_upper country)
        = map_country_to_tag unicode_lower country)"
proof (intro conjI impI)
  show "map_country_to_tag unicode_lower country
     \<in> {''uk'', ''usa'', ''switzerland'', ''spain'', ''europe'', ''default''}"
    by (rule map_country_to_tag_range)
  show "map_country_to_tag unicode_lower ''united kingdom'' = ''uk''"
    by (simp add: map_country_to_tag_def str_lower_def is_ascii_def ascii_lower_def direct_mappings_def)
  show "map_country_to_tag unicode_lower ''ENGLAND'' = ''uk''"
    by (simp add: map_country_to_tag_def str_lower_def is_ascii_def ascii_lower_def char_of_def
          bit_0 direct_mappings_def)
  show "map_country_to_tag unicode_lower ''Germany'' = ''europe''"
    by (simp add: map_country_to_tag_def str_lower_def is_ascii_def ascii_lower_def char_of_def
          bit_0 direct_mappings_def european_countries_def)
  show "map_country_to_tag unicode_lower ''Mars'' = ''default''"
    by (simp add: map_country_to_tag_def str_lower_def is_ascii_def ascii_lower_def char_of_def
          bit_0 direct_mappings_def european_countries_def)
next
  assume "map_of direct_mappings (str_lower unicode_lower country) = None \<and>
    str_lower unicode_lower country \<notin> set european_countries"
  then show "map_country_to_tag unicode_lower country = ''default''"
    by (simp add: map_country_to_tag_def Let_def)
next
  assume "list_all is_ascii country"
  then have "str_lower unicode_lower (map ascii_upper country) = str_lower unicode_lower country"
    by (rule str_lower_upper)
  then show "map_country_to_tag unicode_lower (map ascii_upper country)
        = map_country_to_tag unicode_lower country"
    by (simp add: map_country_to_tag_def)
qed

theorem country_classification_witness:
  "map_country_to_tag no_unicode ''Atlantis'' = ''default'' \<and>
   map_country_to_tag no_unicode ''SPAIN'' = map_country_to_tag no_unicode ''spain'' \<and>
   map_country_to_tag no_unicode ''spain'' = ''spain''"
proof -
  have h1: "map_of direct_mappings (str_lower no_unicode ''Atlantis'') = None \<and>
    str_lower no_unicode ''Atlantis'' \<notin> set european_countries"
    by (simp add: str_lower_def is_ascii_def ascii_lower_def char_of_def bit_0
          direct_mappings_def european_countries_def)
  have h2: "list_all is_ascii ''spain''" by (simp add: is_ascii_def)
  have u: "map ascii_upper ''spain'' = ''SPAIN''" by (simp add: ascii_upper_def char_of_def bit_0)
  note t = country_classification[of no_unicode]
  have "map_country_to_tag no_unicode ''Atlantis'' = ''default''"
    using t[of "''Atlantis''"] h1 by blast
  moreover have "map_country_to_tag no_unicode ''SPAIN'' = map_country_to_tag no_unicode ''spain''"
    using t[of "''spain''"] h2 u by simp
  moreover have "map_country_to_tag no_unicode ''spain'' = ''spain''"
    by (simp add: map_country_to_tag_def str_lower_def is_ascii_def ascii_lower_def direct_mappings_def)
  ultimately show ?thesis by blast
qed

section \<open>Properties of the output path builder\<close>

lemma last_of_Cons:
  "last_of (x # xs) = (case last_of xs of None \<Rightarrow> Some x | Some y \<Rightarrow> Some y)"
  by (simp add: last_of_def)

lemma last_of_Nil: "last_of [] = None" by (simp add: last_of_def)

lemma position_not_country: "t \<in> position_tags \<Longrightarrow> t \<notin> country_tags"
  by (auto simp: position_tags_def country_tags_def)

lemma partition_tags_from:
  "partition_tags tags (country, position, other_tags) =
     ((case last_of (filter (\<lambda>t. t \<in> country_tags) tags) of None \<Rightarrow> country | Some c \<Rightarrow> Some c),
      (case last_of (filter (\<lambda>t. t \<in> position_tags) tags) of None \<Rightarrow> position | Some p \<Rightarrow> Some p),
      other_tags @ filter (\<lambda>t. t \<notin> country_tags \<and> t \<notin> position_tags) tags)"
proof (induction tags arbitrary: country position other_tags)
  case Nil
  then show ?case by (simp add: last_of_Nil)
next
  case (Cons tag tags)
  show ?case
  proof (cases "tag \<in> country_tags")
    case True
    then have "tag \<notin> position_tags" using position_not_country by blast
    with True Cons show ?thesis by (simp add: last_of_Cons split: option.splits)
  next
    case False
    with Cons show ?thesis by (simp add: last_of_Cons split: option.splits)
  qed
qed

text \<open>
  C6, as the code has it. The loop overwrites \<^verbatim>\<open>country\<close> and \<^verbatim>\<open>position\<close> at every
  match, so the selected country tag is the last tag of the list that belongs to the country
  set, the selected position tag is the last tag that belongs to the position set, and the
  other tags are the tags that belong to neither set, in their original order; a country or
  position tag that is not selected is dropped.
\<close>

theorem partition_tags_last_match:
  "partition_tags tags (None, None, []) =
     (last_of (filter (\<lambda>t. t \<in> country_tags) tags),
      last_of (filter (\<lambda>t. t \<in> position_tags) tags),
      filter (\<lambda>t. t \<notin> country_tags \<and> t \<notin> position_tags) tags)"
  by (simp add: partition_tags_from split: option.splits)

text \<open>
  C6 as the claim states it fails: for the tags \<^verbatim>\<open>uk, usa\<close> the first match is
  \<^verbatim>\<open>uk\<close> and \<^verbatim>\<open>usa\<close> would remain among the other tags; the loop selects \<^verbatim>\<open>usa\<close>
  and keeps nothing. The same holds of the position tags.
\<close>

theorem partition_tags_not_first_match:
  "partition_tags [''uk'', ''usa''] (None, None, []) = (Some ''usa'', None, []) \<and>
   spec_partition [''uk'', ''usa''] = (Some ''uk'', None, [''usa'']) \<and>
   partition_tags [''engineer'', ''x'', ''researcher''] (None, None, []) = (None, Some ''researcher'', [''x'']) \<and>
   spec_partition [''engineer'', ''x'', ''researcher''] = (None, Some ''engineer'', [''x'', ''researcher''])"
  by (simp add: spec_partition_def country_tags_def position_tags_def)

lemma split_sep_no_sep: "CHR ''/'' \<notin> set a \<Longrightarrow> split_sep a = [a]"
  by (induction a) auto

lemma split_sep_append:
  "CHR ''/'' \<notin> set a \<Longrightarrow> split_sep (a @ CHR ''/'' # r) = a # split_sep r"
  by (induction a) auto

lemma plain_segmentD:
  "plain_segment a \<Longrightarrow> a \<noteq> [] \<and> a \<noteq> ''.'' \<and> CHR ''/'' \<notin> set a \<and> \<not> prefix ''/'' a \<and> last a \<noteq> CHR ''/''"
proof -
  assume p: "plain_segment a"
  then have ne: "a \<noteq> []" and nd: "a \<noteq> ''.''" and ns: "CHR ''/'' \<notin> set a"
    by (simp_all add: plain_segment_def)
  from ne have "last a \<in> set a" by (rule last_in_set)
  with ns have l: "last a \<noteq> CHR ''/''" by metis
  from ne ns have "\<not> prefix ''/'' a" by (cases a) simp_all
  with ne nd ns l show ?thesis by simp
qed

lemma posix_join_plain:
  assumes "a \<noteq> []" "last a \<noteq> CHR ''/''" "plain_segment b"
  shows "posix_join a b = a @ ''/'' @ b"
  using assms plain_segmentD[OF assms(3)] by (simp add: posix_join_def)

lemma path_str_plain3:
  assumes "plain_segment a" "plain_segment b" "plain_segment c"
  shows "path_str [a, b, c] = a @ ''/'' @ b @ ''/'' @ c"
proof -
  note A = plain_segmentD[OF assms(1)] and B = plain_segmentD[OF assms(2)]
    and C = plain_segmentD[OF assms(3)]
  have j: "foldl posix_join [] [a, b, c] = a @ CHR ''/'' # b @ CHR ''/'' # c"
    using A B C by (simp add: posix_join_def)
  have r: "splitroot (a @ CHR ''/'' # b @ CHR ''/'' # c) = ([], a @ CHR ''/'' # b @ CHR ''/'' # c)"
    using A by (cases a) (simp_all add: splitroot_def)
  have s: "split_sep (a @ CHR ''/'' # b @ CHR ''/'' # c) = [a, b, c]"
    using A B C by (simp add: split_sep_append split_sep_no_sep)
  have pp: "parse_path (foldl posix_join [] [a, b, c]) = ([], [a, b, c])"
    unfolding j parse_path_def r using A B C by (simp add: s)
  show ?thesis unfolding path_str_def pp using A by simp
qed

lemma path_str_plain4:
  assumes "plain_segment a" "plain_segment b" "plain_segment c" "plain_segment d"
  shows "path_str [a, b, c, d] = a @ ''/'' @ b @ ''/'' @ c @ ''/'' @ d"
proof -
  note A = plain_segmentD[OF assms(1)] and B = plain_segmentD[OF assms(2)]
    and C = plain_segmentD[OF assms(3)] and D = plain_segmentD[OF assms(4)]
  have j: "foldl posix_join [] [a, b, c, d] = a @ CHR ''/'' # b @ CHR ''/'' # c @ CHR ''/'' # d"
    using A B C D by (simp add: posix_join_def)
  have r: "splitroot (a @ CHR ''/'' # b @ CHR ''/'' # c @ CHR ''/'' # d)
      = ([], a @ CHR ''/'' # b @ CHR ''/'' # c @ CHR ''/'' # d)"
    using A by (cases a) (simp_all add: splitroot_def)
  have s: "split_sep (a @ CHR ''/'' # b @ CHR ''/'' # c @ CHR ''/'' # d) = [a, b, c, d]"
    using A B C D by (simp add: split_sep_append split_sep_no_sep)
  have pp: "parse_path (foldl posix_join [] [a, b, c, d]) = ([], [a, b, c, d])"
    unfolding j parse_path_def r using A B C D by (simp add: s)
  show ?thesis unfolding path_str_def pp using A by simp
qed

lemma path_name_plain:
  assumes "plain_segment p"
  shows "path_name p = p"
proof -
  note P = plain_segmentD[OF assms]
  have r: "splitroot p = ([], p)" using P by (simp add: splitroot_def)
  have s: "split_sep p = [p]" using P by (simp add: split_sep_no_sep)
  have "parse_path p = ([], [p])" unfolding parse_path_def r using P by (simp add: s)
  then show ?thesis by (simp add: path_name_def)
qed

lemma stem_suffix_name: "path_stem p @ path_suffix p = path_name p"
  by (simp add: path_stem_def path_suffix_def Let_def)

lemma str_join_no_sep:
  "list_all (\<lambda>t. CHR ''/'' \<notin> set t) xs \<Longrightarrow> CHR ''/'' \<notin> set (str_join ''_'' xs)"
  by (induction "''_''" xs rule: str_join.induct) simp_all

lemma folder_name_plain:
  "list_all (\<lambda>t. CHR ''/'' \<notin> set t) other_tags \<Longrightarrow>
   plain_segment (if other_tags \<noteq> [] then ''_base_'' @ str_join ''_'' other_tags else ''_base'')"
  by (simp add: plain_segment_def str_join_no_sep)

lemma country_tag_not_empty: "c \<in> country_tags \<Longrightarrow> c \<noteq> []"
  by (auto simp: country_tags_def)

lemma position_tag_not_empty: "c \<in> position_tags \<Longrightarrow> c \<noteq> []"
  by (auto simp: position_tags_def)

lemma last_of_filter:
  assumes "last_of (filter P xs) = Some x"
  shows "P x"
proof -
  from assms have ne: "filter P xs \<noteq> []" and x: "x = last (filter P xs)"
    by (simp_all add: last_of_def split: if_splits)
  from ne have "last (filter P xs) \<in> set (filter P xs)" by (rule last_in_set)
  with x show ?thesis by simp
qed

lemma create_folder_structure_plain:
  assumes "other_tags = filter (\<lambda>t. t \<notin> country_tags \<and> t \<notin> position_tags) tags"
    and "folder_name = (if other_tags \<noteq> [] then ''_base_'' @ str_join ''_'' other_tags else ''_base'')"
    and "folder_country = (if country_original \<noteq> [] then country_original
           else case last_of (filter (\<lambda>t. t \<in> country_tags) tags) of
                  Some c \<Rightarrow> c | None \<Rightarrow> ''default'')"
    and "plain_segment folder_country"
    and "list_all (\<lambda>t. CHR ''/'' \<notin> set t) other_tags"
    and "plain_segment base_output_file"
    and "mkdir (folder_country @ ''/'' @ folder_name @ ''/Position'')"
  shows "create_folder_structure mkdir tags base_output_file country_original
         = Inr (folder_country @ ''/'' @ folder_name @ ''/Position/'' @ base_output_file)"
proof -
  have p: "partition_tags tags (None, None, []) =
     (last_of (filter (\<lambda>t. t \<in> country_tags) tags),
      last_of (filter (\<lambda>t. t \<in> position_tags) tags), other_tags)"
    by (simp add: partition_tags_from assms(1) split: option.splits)
  have c: "(case last_of (filter (\<lambda>t. t \<in> country_tags) tags) of None \<Rightarrow> ''default''
            | Some c \<Rightarrow> if c = [] then ''default'' else c)
         = (case last_of (filter (\<lambda>t. t \<in> country_tags) tags) of Some c \<Rightarrow> c | None \<Rightarrow> ''default'')"
  proof (cases "last_of (filter (\<lambda>t. t \<in> country_tags) tags)")
    case None
    then show ?thesis by simp
  next
    case (Some x)
    then have "x \<in> country_tags" by (rule last_of_filter)
    then have "x \<noteq> []" by (rule country_tag_not_empty)
    with Some show ?thesis by simp
  qed
  have fn: "plain_segment folder_name" unfolding assms(2) by (rule folder_name_plain[OF assms(5)])
  have pos: "plain_segment ''Position''" by (simp add: plain_segment_def)
  have n: "path_stem base_output_file @ path_suffix base_output_file = base_output_file"
    by (simp add: stem_suffix_name path_name_plain[OF assms(6)])
  have p3: "path_str [folder_country, folder_name, ''Position'']
      = folder_country @ ''/'' @ folder_name @ ''/Position''"
    using path_str_plain3[OF assms(4) fn pos] by simp
  have p4: "path_str [folder_country, folder_name, ''Position'', base_output_file]
      = folder_country @ ''/'' @ folder_name @ ''/Position/'' @ base_output_file"
    using path_str_plain4[OF assms(4) fn pos assms(6)] by simp
  have fc: "(if country_original \<noteq> [] then country_original
       else case last_of (filter (\<lambda>t. t \<in> country_tags) tags) of None \<Rightarrow> ''default''
            | Some c \<Rightarrow> if c = [] then ''default'' else c) = folder_country"
    unfolding c assms(3) ..
  have fnm: "(if other_tags \<noteq> [] then ''_base_'' @ str_join ''_'' other_tags else ''_base'') = folder_name"
    unfolding assms(2) ..
  have m: "mkdir (path_str [folder_country, folder_name, ''Position''])"
    unfolding p3 by (rule assms(7))
  have "create_folder_structure mkdir tags base_output_file country_original
      = (if mkdir (path_str [folder_country, folder_name, ''Position''])
         then Inr (path_str ([folder_country, folder_name, ''Position'']
                    @ [path_stem base_output_file @ path_suffix base_output_file]))
         else Inl OSError)"
    unfolding create_folder_structure_def p prod.case Let_def fc fnm ..
  also have "\<dots> = Inr (path_str [folder_country, folder_name, ''Position'', base_output_file])"
    using m by (simp add: n)
  finally show ?thesis unfolding p4 .
qed

lemma create_folder_structure_general:
  assumes "other_tags = filter (\<lambda>t. t \<notin> country_tags \<and> t \<notin> position_tags) tags"
    and "folder_name = (if other_tags \<noteq> [] then ''_base_'' @ str_join ''_'' other_tags else ''_base'')"
    and "folder_country = (if country_original \<noteq> [] then country_original
           else case last_of (filter (\<lambda>t. t \<in> country_tags) tags) of
                  Some c \<Rightarrow> c | None \<Rightarrow> ''default'')"
    and "mkdir (path_str [folder_country, folder_name, ''Position''])"
  shows "create_folder_structure mkdir tags base_output_file country_original
         = Inr (path_str [folder_country, folder_name, ''Position'', path_name base_output_file])"
proof -
  have p: "partition_tags tags (None, None, []) =
     (last_of (filter (\<lambda>t. t \<in> country_tags) tags),
      last_of (filter (\<lambda>t. t \<in> position_tags) tags), other_tags)"
    by (simp add: partition_tags_from assms(1) split: option.splits)
  have c: "(case last_of (filter (\<lambda>t. t \<in> country_tags) tags) of None \<Rightarrow> ''default''
            | Some c \<Rightarrow> if c = [] then ''default'' else c)
         = (case last_of (filter (\<lambda>t. t \<in> country_tags) tags) of Some c \<Rightarrow> c | None \<Rightarrow> ''default'')"
  proof (cases "last_of (filter (\<lambda>t. t \<in> country_tags) tags)")
    case None
    then show ?thesis by simp
  next
    case (Some x)
    then have "x \<in> country_tags" by (rule last_of_filter)
    then have "x \<noteq> []" by (rule country_tag_not_empty)
    with Some show ?thesis by simp
  qed
  have fc: "(if country_original \<noteq> [] then country_original
       else case last_of (filter (\<lambda>t. t \<in> country_tags) tags) of None \<Rightarrow> ''default''
            | Some c \<Rightarrow> if c = [] then ''default'' else c) = folder_country"
    unfolding c assms(3) ..
  have fnm: "(if other_tags \<noteq> [] then ''_base_'' @ str_join ''_'' other_tags else ''_base'') = folder_name"
    unfolding assms(2) ..
  have "create_folder_structure mkdir tags base_output_file country_original
      = (if mkdir (path_str [folder_country, folder_name, ''Position''])
         then Inr (path_str ([folder_country, folder_name, ''Position'']
                    @ [path_stem base_output_file @ path_suffix base_output_file]))
         else Inl OSError)"
    unfolding create_folder_structure_def p prod.case Let_def fc fnm ..
  also have "\<dots> = Inr (path_str [folder_country, folder_name, ''Position'', path_name base_output_file])"
    using assms(4) by (simp add: stem_suffix_name)
  finally show ?thesis .
qed

text \<open>
  C9. When the directories can be made: the tags \<^verbatim>\<open>usa, data_scientist\<close>, the base file
  \<^verbatim>\<open>resume.tex\<close> and the country \<^verbatim>\<open>USA\<close> give \<^verbatim>\<open>USA/_base/Position/resume.tex\<close>;
  with the tag \<^verbatim>\<open>finance\<close> added the folder is \<^verbatim>\<open>_base_finance\<close>. In general the folder
  name is \<^verbatim>\<open>_base_\<close> followed by the other tags joined by underscores when there are
  any, else \<^verbatim>\<open>_base\<close>; the country segment is the original country name when it is not
  empty, else the country tag selected from the list, else \<^verbatim>\<open>default\<close>; and the path is
  country segment, folder name, \<^verbatim>\<open>Position\<close> and the base file name, joined by slashes
  when \<^verbatim>\<open>pathlib\<close> keeps the segments as they are, and joined and normalised by
  \<^verbatim>\<open>pathlib\<close> in every case.
\<close>

theorem create_folder_structure_path:
  "(mkdir ''USA/_base/Position'' \<longrightarrow>
      create_folder_structure mkdir [''usa'', ''data_scientist''] ''resume.tex'' ''USA''
        = Inr ''USA/_base/Position/resume.tex'') \<and>
   (mkdir ''USA/_base_finance/Position'' \<longrightarrow>
      create_folder_structure mkdir [''usa'', ''data_scientist'', ''finance''] ''resume.tex'' ''USA''
        = Inr ''USA/_base_finance/Position/resume.tex'') \<and>
   (let other_tags = filter (\<lambda>t. t \<notin> country_tags \<and> t \<notin> position_tags) tags;
        folder_name = (if other_tags \<noteq> [] then ''_base_'' @ str_join ''_'' other_tags
                       else ''_base'');
        folder_country = (if country_original \<noteq> [] then country_original
                          else case last_of (filter (\<lambda>t. t \<in> country_tags) tags) of
                                 Some c \<Rightarrow> c | None \<Rightarrow> ''default'')
    in plain_segment folder_country \<and> list_all (\<lambda>t. CHR ''/'' \<notin> set t) other_tags \<and>
       plain_segment base_output_file \<and>
       mkdir (folder_country @ ''/'' @ folder_name @ ''/Position'') \<longrightarrow>
         create_folder_structure mkdir tags base_output_file country_original
           = Inr (folder_country @ ''/'' @ folder_name @ ''/Position/'' @ base_output_file)) \<and>
   (let other_tags = filter (\<lambda>t. t \<notin> country_tags \<and> t \<notin> position_tags) tags;
        folder_name = (if other_tags \<noteq> [] then ''_base_'' @ str_join ''_'' other_tags
                       else ''_base'');
        folder_country = (if country_original \<noteq> [] then country_original
                          else case last_of (filter (\<lambda>t. t \<in> country_tags) tags) of
                                 Some c \<Rightarrow> c | None \<Rightarrow> ''default'')
    in mkdir (path_str [folder_country, folder_name, ''Position'']) \<longrightarrow>
         create_folder_structure mkdir tags base_output_file country_original
           = Inr (path_str [folder_country, folder_name, ''Position'',
                            path_name base_output_file]))"
proof (intro conjI)
  show "mkdir ''USA/_base/Position'' \<longrightarrow>
      create_folder_structure mkdir [''usa'', ''data_scientist''] ''resume.tex'' ''USA''
        = Inr ''USA/_base/Position/resume.tex''"
  proof
  assume m: "mkdir ''USA/_base/Position''"
  have "create_folder_structure mkdir [''usa'', ''data_scientist''] ''resume.tex'' ''USA''
      = Inr (''USA'' @ ''/'' @ ''_base'' @ ''/Position/'' @ ''resume.tex'')"
    by (rule create_folder_structure_plain[where other_tags = "[]"])
       (use m in \<open>simp_all add: country_tags_def position_tags_def plain_segment_def\<close>)
  then show "create_folder_structure mkdir [''usa'', ''data_scientist''] ''resume.tex'' ''USA''
        = Inr ''USA/_base/Position/resume.tex''" by simp
  qed
next
  show "mkdir ''USA/_base_finance/Position'' \<longrightarrow>
      create_folder_structure mkdir [''usa'', ''data_scientist'', ''finance''] ''resume.tex'' ''USA''
        = Inr ''USA/_base_finance/Position/resume.tex''"
  proof
  assume m: "mkdir ''USA/_base_finance/Position''"
  have "create_folder_structure mkdir [''usa'', ''data_scientist'', ''finance''] ''resume.tex'' ''USA''
      = Inr (''USA'' @ ''/'' @ ''_base_finance'' @ ''/Position/'' @ ''resume.tex'')"
    by (rule create_folder_structure_plain[where other_tags = "[''finance'']"])
       (use m in \<open>simp_all add: country_tags_def position_tags_def plain_segment_def\<close>)
  then show "create_folder_structure mkdir [''usa'', ''data_scientist'', ''finance''] ''resume.tex'' ''USA''
        = Inr ''USA/_base_finance/Position/resume.tex''" by simp
  qed
next
  show "let other_tags = filter (\<lambda>t. t \<notin> country_tags \<and> t \<notin> position_tags) tags;
        folder_name = (if other_tags \<noteq> [] then ''_base_'' @ str_join ''_'' other_tags
                       else ''_base'');
        folder_country = (if country_original \<noteq> [] then country_original
                          else case last_of (filter (\<lambda>t. t \<in> country_tags) tags) of
                                 Some c \<Rightarrow> c | None \<Rightarrow> ''default'')
    in plain_segment folder_country \<and> list_all (\<lambda>t. CHR ''/'' \<notin> set t) other_tags \<and>
       plain_segment base_output_file \<and>
       mkdir (folder_country @ ''/'' @ folder_name @ ''/Position'') \<longrightarrow>
         create_folder_structure mkdir tags base_output_file country_original
           = Inr (folder_country @ ''/'' @ folder_name @ ''/Position/'' @ base_output_file)"
    unfolding Let_def
  proof (intro impI, elim conjE)
    assume a: "plain_segment (if country_original \<noteq> [] then country_original
                          else case last_of (filter (\<lambda>t. t \<in> country_tags) tags) of
                                 Some c \<Rightarrow> c | None \<Rightarrow> ''default'')"
      "list_all (\<lambda>t. CHR ''/'' \<notin> set t) (filter (\<lambda>t. t \<notin> country_tags \<and> t \<notin> position_tags) tags)"
      "plain_segment base_output_file"
      "mkdir ((if country_original \<noteq> [] then country_original
                          else case last_of (filter (\<lambda>t. t \<in> country_tags) tags) of
                                 Some c \<Rightarrow> c | None \<Rightarrow> ''default'') @ ''/'' @
        (if filter (\<lambda>t. t \<notin> country_tags \<and> t \<notin> position_tags) tags \<noteq> []
         then ''_base_'' @ str_join ''_'' (filter (\<lambda>t. t \<notin> country_tags \<and> t \<notin> position_tags) tags)
         else ''_base'') @ ''/Position'')"
    show "create_folder_structure mkdir tags base_output_file country_original
           = Inr ((if country_original \<noteq> [] then country_original
                          else case last_of (filter (\<lambda>t. t \<in> country_tags) tags) of
                                 Some c \<Rightarrow> c | None \<Rightarrow> ''default'') @ ''/'' @
        (if filter (\<lambda>t. t \<notin> country_tags \<and> t \<notin> position_tags) tags \<noteq> []
         then ''_base_'' @ str_join ''_'' (filter (\<lambda>t. t \<notin> country_tags \<and> t \<notin> position_tags) tags)
         else ''_base'') @ ''/Position/'' @ base_output_file)"
      by (rule create_folder_structure_plain
            [where tags = tags and country_original = country_original and mkdir = mkdir
               and base_output_file = base_output_file, OF refl refl refl a])
  qed
next
  show "let other_tags = filter (\<lambda>t. t \<notin> country_tags \<and> t \<notin> position_tags) tags;
        folder_name = (if other_tags \<noteq> [] then ''_base_'' @ str_join ''_'' other_tags
                       else ''_base'');
        folder_country = (if country_original \<noteq> [] then country_original
                          else case last_of (filter (\<lambda>t. t \<in> country_tags) tags) of
                                 Some c \<Rightarrow> c | None \<Rightarrow> ''default'')
    in mkdir (path_str [folder_country, folder_name, ''Position'']) \<longrightarrow>
         create_folder_structure mkdir tags base_output_file country_original
           = Inr (path_str [folder_country, folder_name, ''Position'',
                            path_name base_output_file])"
    unfolding Let_def
    by (intro impI, rule create_folder_structure_general
          [where tags = tags and country_original = country_original and mkdir = mkdir
             and base_output_file = base_output_file, OF refl refl refl])
qed

theorem create_folder_structure_path_witness:
  "create_folder_structure mkdir_ok [''usa'', ''data_scientist''] ''resume.tex'' ''USA''
     = Inr ''USA/_base/Position/resume.tex'' \<and>
   create_folder_structure mkdir_ok [''usa'', ''data_scientist'', ''finance''] ''resume.tex'' ''USA''
     = Inr ''USA/_base_finance/Position/resume.tex'' \<and>
   create_folder_structure mkdir_ok [''uk'', ''europe'', ''researcher'', ''academic'', ''ai'']
     ''cv.tex'' '''' = Inr ''europe/_base_academic_ai/Position/cv.tex'' \<and>
   create_folder_structure mkdir_ok [''engineer''] ''cv.tex'' ''''
     = Inr ''default/_base/Position/cv.tex'' \<and>
   create_folder_structure mkdir_ok [''x'', ''spain''] ''out/./cv.v2.tex'' ''//a//b/./c/''
     = Inr ''//a/b/c/_base_x/Position/cv.v2.tex''"
proof -
  have a: "create_folder_structure mkdir_ok [''usa'', ''data_scientist''] ''resume.tex'' ''USA''
     = Inr ''USA/_base/Position/resume.tex''"
    using create_folder_structure_path[of mkdir_ok "[]" "''x''" "''y''", THEN conjunct1]
    by (simp add: mkdir_ok_def)
  have b: "create_folder_structure mkdir_ok [''usa'', ''data_scientist'', ''finance''] ''resume.tex'' ''USA''
     = Inr ''USA/_base_finance/Position/resume.tex''"
    using create_folder_structure_path[of mkdir_ok "[]" "''x''" "''y''", THEN conjunct2, THEN conjunct1]
    by (simp add: mkdir_ok_def)
  have c: "create_folder_structure mkdir_ok [''uk'', ''europe'', ''researcher'', ''academic'', ''ai'']
     ''cv.tex'' '''' = Inr ''europe/_base_academic_ai/Position/cv.tex''"
    using create_folder_structure_path[of mkdir_ok
        "[''uk'', ''europe'', ''researcher'', ''academic'', ''ai'']" "''''" "''cv.tex''",
        THEN conjunct2, THEN conjunct2, THEN conjunct1]
    by (simp add: Let_def mkdir_ok_def country_tags_def position_tags_def plain_segment_def last_of_def)
  have d: "create_folder_structure mkdir_ok [''engineer''] ''cv.tex'' ''''
     = Inr ''default/_base/Position/cv.tex''"
    using create_folder_structure_path[of mkdir_ok "[''engineer'']" "''''" "''cv.tex''",
        THEN conjunct2, THEN conjunct2, THEN conjunct1]
    by (simp add: Let_def mkdir_ok_def country_tags_def position_tags_def plain_segment_def last_of_def)
  have e: "create_folder_structure mkdir_ok [''x'', ''spain''] ''out/./cv.v2.tex'' ''//a//b/./c/''
     = Inr ''//a/b/c/_base_x/Position/cv.v2.tex''"
    using create_folder_structure_path[of mkdir_ok "[''x'', ''spain'']" "''//a//b/./c/''"
        "''out/./cv.v2.tex''", THEN conjunct2, THEN conjunct2, THEN conjunct2]
    by (simp add: Let_def mkdir_ok_def country_tags_def position_tags_def last_of_def
          path_str_def parse_path_def splitroot_def posix_join_def path_name_def)
  from a b c d e show ?thesis by simp
qed

end
